theory Spec2Isabelle
  imports Main "HOL-Library.Multiset"
begin

section \<open>EHeapQ: the indexed, size-bounded binary min-heap of eheapq.hpp\<close>

text \<open>
  The class template \<^verbatim>\<open>EHeapQ<T, Compare>\<close> of \<^verbatim>\<open>src/fext/eheapq.hpp\<close> is embedded
  as a record of its data members and one function per member function.  Every
  member function takes the state and returns the outcome together with the
  state it leaves behind, so that the state after a thrown exception can be
  inspected too.

  \<^item> \<^verbatim>\<open>std::vector<T>\<close> is a list; \<^verbatim>\<open>push_back\<close> appends and \<^verbatim>\<open>pop_back\<close>
    is \<^const>\<open>butlast\<close>.  \<^verbatim>\<open>size_t\<close> positions are natural numbers: the
    code computes \<^verbatim>\<open>(pos - 1) >> 1\<close> only for \<^verbatim>\<open>pos > startpos\<close> and
    \<^verbatim>\<open>(pos << 1) + 1\<close> only for \<^verbatim>\<open>pos < size / 2\<close>, so neither wraps.
  \<^item> \<^verbatim>\<open>std::unordered_map<T, size_t>\<close> is a map \<open>'a \<rightharpoonup> nat\<close>.
  \<^item> The comparator object \<^verbatim>\<open>comp\<close> is a parameter \<open>'a \<Rightarrow> 'a \<Rightarrow> bool option\<close>;
    \<open>None\<close> stands for a comparison that throws (as \<^verbatim>\<open>PyObjectRichCmp\<close> of
    \<^verbatim>\<open>eheapq.cpp\<close> does).
\<close>

subsection \<open>Errors\<close>

datatype error =
    EHeapQEmpty             \<comment> \<open>\<^verbatim>\<open>EHeapQEmptyExc\<close>\<close>
  | EHeapQNotFound          \<comment> \<open>\<^verbatim>\<open>EHeapQNotFoundExc\<close>\<close>
  | EHeapQAlreadyPresent    \<comment> \<open>\<^verbatim>\<open>EHeapQAlreadyPresentExc\<close>\<close>
  | EHeapQNoLast            \<comment> \<open>\<^verbatim>\<open>EHeapQNoLastExc\<close>\<close>
  | CompareError            \<comment> \<open>the exception thrown by the comparator\<close>
  | OutOfRange              \<comment> \<open>\<^verbatim>\<open>std::out_of_range\<close> of \<^verbatim>\<open>unordered_map::at\<close>\<close>
  | Terminate               \<comment> \<open>an exception leaving a \<^verbatim>\<open>noexcept\<close> function\<close>
  | UndefinedBehaviour      \<comment> \<open>an unchecked vector access outside its bounds\<close>

type_synonym 'a compare = "'a \<Rightarrow> 'a \<Rightarrow> bool option"

subsection \<open>The data members\<close>

text \<open>The member \<^verbatim>\<open>size\<close> (the capacity) is named \<open>size'\<close>, since \<open>size\<close> is a
  constant of HOL.\<close>

record 'a EHeapQ =
  heap :: "'a list"
  size' :: nat
  last_item :: 'a
  last_item_set :: bool
  max_item :: 'a
  max_item_set :: bool
  index_map :: "'a \<rightharpoonup> nat"

text \<open>The constructor.  It leaves \<^verbatim>\<open>last_item\<close> and \<^verbatim>\<open>max_item\<close>
  default-initialised; their initial values are the parameters \<open>l0\<close> and \<open>m0\<close>.\<close>

definition EHeapQ_new :: "nat \<Rightarrow> 'a \<Rightarrow> 'a \<Rightarrow> 'a EHeapQ" where
  "EHeapQ_new sz l0 m0 =
     \<lparr>heap = [], size' = sz, last_item = l0, last_item_set = False,
      max_item = m0, max_item_set = False, index_map = Map.empty\<rparr>"

subsection \<open>Operations of the index map\<close>

text \<open>\<^verbatim>\<open>index_map->at(k) = v\<close>: throws \<^verbatim>\<open>std::out_of_range\<close> when \<open>k\<close> is absent.\<close>

definition index_at_put :: "'a \<Rightarrow> nat \<Rightarrow> 'a EHeapQ \<Rightarrow> (error + unit) \<times> 'a EHeapQ" where
  "index_at_put k v s =
     (case index_map s k of
        None \<Rightarrow> (Inl OutOfRange, s)
      | Some _ \<Rightarrow> (Inr (), s\<lparr>index_map := (index_map s)(k \<mapsto> v)\<rparr>))"

text \<open>\<^verbatim>\<open>index_map->insert({k, v})\<close>: keeps an entry that is already there.\<close>

definition index_insert :: "'a \<Rightarrow> nat \<Rightarrow> 'a EHeapQ \<Rightarrow> 'a EHeapQ" where
  "index_insert k v s =
     (case index_map s k of
        None \<Rightarrow> s\<lparr>index_map := (index_map s)(k \<mapsto> v)\<rparr>
      | Some _ \<Rightarrow> s)"

text \<open>\<^verbatim>\<open>index_map->erase(k)\<close>.\<close>

definition index_erase :: "'a \<Rightarrow> 'a EHeapQ \<Rightarrow> 'a EHeapQ" where
  "index_erase k s = s\<lparr>index_map := (index_map s)(k := None)\<rparr>"

subsection \<open>Private helpers\<close>

definition throw_on_empty :: "'a EHeapQ \<Rightarrow> error + unit" where
  "throw_on_empty s = (if length (heap s) = 0 then Inl EHeapQEmpty else Inr ())"

definition set_last_item :: "'a \<Rightarrow> 'a EHeapQ \<Rightarrow> 'a EHeapQ" where
  "set_last_item item s = s\<lparr>last_item := item, last_item_set := True\<rparr>"

definition set_max_item :: "'a \<Rightarrow> 'a EHeapQ \<Rightarrow> 'a EHeapQ" where
  "set_max_item item s = s\<lparr>max_item := item, max_item_set := True\<rparr>"

definition maybe_del_last_item :: "'a \<Rightarrow> 'a EHeapQ \<Rightarrow> 'a EHeapQ" where
  "maybe_del_last_item item s =
     (if last_item_set s \<and> last_item s = item then s\<lparr>last_item_set := False\<rparr> else s)"

definition maybe_del_max_item :: "'a \<Rightarrow> 'a EHeapQ \<Rightarrow> 'a EHeapQ" where
  "maybe_del_max_item item s =
     (if max_item_set s \<and> max_item s = item then s\<lparr>max_item_set := False\<rparr> else s)"

text \<open>\<^verbatim>\<open>maybe_adjust_max\<close> is \<^verbatim>\<open>noexcept\<close>: a comparator that throws inside it ends
  the program.\<close>

definition maybe_adjust_max :: "'a compare \<Rightarrow> 'a \<Rightarrow> 'a EHeapQ \<Rightarrow> (error + unit) \<times> 'a EHeapQ" where
  "maybe_adjust_max comp' item s =
     (if \<not> max_item_set s then (Inr (), s)
      else case comp' (max_item s) item of
             None \<Rightarrow> (Inl Terminate, s)
           | Some True \<Rightarrow> (Inr (), s\<lparr>max_item := item\<rparr>)
           | Some False \<Rightarrow> (Inr (), s))"

subsection \<open>Accessors\<close>

definition get_top :: "'a EHeapQ \<Rightarrow> (error + 'a) \<times> 'a EHeapQ" where
  "get_top s =
     (case throw_on_empty s of
        Inl e \<Rightarrow> (Inl e, s)
      | Inr _ \<Rightarrow> (Inr (heap s ! 0), s))"

definition get_last :: "'a EHeapQ \<Rightarrow> (error + 'a) \<times> 'a EHeapQ" where
  "get_last s =
     (if length (heap s) = 0 then (Inl EHeapQEmpty, s)
      else if \<not> last_item_set s then (Inl EHeapQNoLast, s)
      else (Inr (last_item s), s))"

definition get_size :: "'a EHeapQ \<Rightarrow> nat" where
  "get_size s = size' s"

definition get_length :: "'a EHeapQ \<Rightarrow> nat" where
  "get_length s = length (heap s)"

subsection \<open>\<^verbatim>\<open>get_max\<close>\<close>

text \<open>The \<^verbatim>\<open>for\<close> loop of \<^verbatim>\<open>get_max\<close>, from position \<open>i\<close> on, with the running
  \<^verbatim>\<open>result\<close>.\<close>

function get_max_loop :: "'a compare \<Rightarrow> 'a list \<Rightarrow> nat \<Rightarrow> 'a \<Rightarrow> error + 'a" where
  "get_max_loop comp' xs i result =
     (if i < length xs then
        (case comp' result (xs ! i) of
           None \<Rightarrow> Inl CompareError
         | Some True \<Rightarrow> get_max_loop comp' xs (i + 1) (xs ! i)
         | Some False \<Rightarrow> get_max_loop comp' xs (i + 1) result)
      else Inr result)"
  by pat_completeness auto
termination
  by (relation "measure (\<lambda>(comp', xs, i, result). length xs - i)") auto

declare get_max_loop.simps [simp del]

text \<open>\<^verbatim>\<open>get_max\<close> stores the result in \<^verbatim>\<open>max_item\<close> by a plain assignment.\<close>

definition get_max :: "'a compare \<Rightarrow> 'a EHeapQ \<Rightarrow> (error + 'a) \<times> 'a EHeapQ" where
  "get_max comp' s =
     (case throw_on_empty s of
        Inl e \<Rightarrow> (Inl e, s)
      | Inr _ \<Rightarrow>
          if max_item_set s then (Inr (max_item s), s)
          else
            (case get_max_loop comp' (heap s) (length (heap s) div 2 + 1)
                    (heap s ! (length (heap s) div 2)) of
               Inl e \<Rightarrow> (Inl e, s)
             | Inr result \<Rightarrow> (Inr result, s\<lparr>max_item := result\<rparr>)))"

subsection \<open>\<^verbatim>\<open>siftdown\<close>: move the item at \<open>pos\<close> towards the root\<close>

text \<open>The \<^verbatim>\<open>while (pos > startpos)\<close> loop.  \<^verbatim>\<open>newitem\<close> is \<^verbatim>\<open>arr[pos]\<close> at every
  loop head: it is read from there before the loop and again after each
  comparison.\<close>

function siftdown_loop ::
  "'a compare \<Rightarrow> nat \<Rightarrow> nat \<Rightarrow> 'a EHeapQ \<Rightarrow> (error + unit) \<times> 'a EHeapQ" where
  "siftdown_loop comp' startpos pos s =
     (if pos > startpos then
        (let parentpos = (pos - 1) div 2;
             newitem = heap s ! pos;
             parent = heap s ! parentpos
         in case comp' newitem parent of
              None \<Rightarrow> (Inl CompareError, s)
            | Some False \<Rightarrow> (Inr (), s)
            | Some True \<Rightarrow>
                (let s1 = s\<lparr>heap := (heap s)[parentpos := newitem, pos := parent]\<rparr>
                 in case index_at_put newitem parentpos s1 of
                      (Inl e, s2) \<Rightarrow> (Inl e, s2)
                    | (Inr _, s2) \<Rightarrow>
                        (case index_at_put parent pos s2 of
                           (Inl e, s3) \<Rightarrow> (Inl e, s3)
                         | (Inr _, s3) \<Rightarrow> siftdown_loop comp' startpos parentpos s3)))
      else (Inr (), s))"
  by pat_completeness auto
termination
  by (relation "measure (\<lambda>(comp', startpos, pos, s). pos)") auto

declare siftdown_loop.simps [simp del]

definition siftdown :: "'a compare \<Rightarrow> nat \<Rightarrow> nat \<Rightarrow> 'a EHeapQ \<Rightarrow> (error + unit) \<times> 'a EHeapQ" where
  "siftdown comp' startpos pos s =
     (if length (heap s) = 0 then (Inr (), s)
      else if pos \<ge> length (heap s) then (Inl UndefinedBehaviour, s)
      else siftdown_loop comp' startpos pos s)"

subsection \<open>\<^verbatim>\<open>siftup\<close>: move the item at \<open>pos\<close> to a leaf, then back up\<close>

text \<open>The \<^verbatim>\<open>while (pos < limit)\<close> loop; it returns the final \<open>pos\<close>.
  \<^verbatim>\<open>childpos += ((unsigned)cmp ^ 1)\<close> adds one exactly when the comparison
  is false.\<close>

function siftup_loop ::
  "'a compare \<Rightarrow> nat \<Rightarrow> nat \<Rightarrow> nat \<Rightarrow> 'a EHeapQ \<Rightarrow> (error + nat) \<times> 'a EHeapQ" where
  "siftup_loop comp' endpos limit pos s =
     (if pos < limit then
        (case (if 2 * pos + 1 + 1 < endpos then
                 (case comp' (heap s ! (2 * pos + 1)) (heap s ! (2 * pos + 1 + 1)) of
                    None \<Rightarrow> Inl CompareError
                  | Some cmp \<Rightarrow> Inr (2 * pos + 1 + (if cmp then 0 else 1)))
               else Inr (2 * pos + 1)) of
           Inl e \<Rightarrow> (Inl e, s)
         | Inr childpos \<Rightarrow>
             (let tmp1 = heap s ! childpos;
                  tmp2 = heap s ! pos;
                  s1 = s\<lparr>heap := (heap s)[childpos := tmp2, pos := tmp1]\<rparr>
              in case index_at_put tmp2 childpos s1 of
                   (Inl e, s2) \<Rightarrow> (Inl e, s2)
                 | (Inr _, s2) \<Rightarrow>
                     (case index_at_put tmp1 pos s2 of
                        (Inl e, s3) \<Rightarrow> (Inl e, s3)
                      | (Inr _, s3) \<Rightarrow> siftup_loop comp' endpos limit childpos s3)))
      else (Inr pos, s))"
  by pat_completeness auto
termination
  by (relation "measure (\<lambda>(comp', endpos, limit, pos, s). limit - pos)")
     (auto split: if_splits option.splits)

declare siftup_loop.simps [simp del]

definition siftup :: "'a compare \<Rightarrow> nat \<Rightarrow> 'a EHeapQ \<Rightarrow> (error + unit) \<times> 'a EHeapQ" where
  "siftup comp' pos s =
     (let endpos = length (heap s);
          startpos = pos;
          limit = endpos div 2
      in case siftup_loop comp' endpos limit pos s of
           (Inl e, s1) \<Rightarrow> (Inl e, s1)
         | (Inr pos', s1) \<Rightarrow> siftdown comp' startpos pos' s1)"

subsection \<open>\<^verbatim>\<open>pushpop\<close> and \<^verbatim>\<open>push\<close>\<close>

definition pushpop :: "'a compare \<Rightarrow> 'a \<Rightarrow> 'a EHeapQ \<Rightarrow> (error + 'a) \<times> 'a EHeapQ" where
  "pushpop comp' item s =
     (if index_map s item \<noteq> None then (Inl EHeapQAlreadyPresent, s)
      else if length (heap s) > 0 then
        (case comp' (heap s ! 0) item of
           None \<Rightarrow> (Inl CompareError, s)
         | Some True \<Rightarrow>
             (let to_return = heap s ! 0;
                  s1 = s\<lparr>heap := (heap s)[0 := item]\<rparr>;
                  s2 = index_insert item 0 s1;
                  s3 = index_erase to_return s2
              in case siftup comp' 0 s3 of
                   (Inl e, s4) \<Rightarrow> (Inl e, s4)
                 | (Inr _, s4) \<Rightarrow>
                     (let s5 = set_last_item item s4;
                          s6 = maybe_del_max_item item s5
                      in case maybe_adjust_max comp' item s6 of
                           (Inl e, s7) \<Rightarrow> (Inl e, s7)
                         | (Inr _, s7) \<Rightarrow> (Inr to_return, s7)))
         | Some False \<Rightarrow> (Inr item, s))
      else (Inr item, s))"

text \<open>The handler \<^verbatim>\<open>catch (...)\<close> of \<^verbatim>\<open>push\<close> erases the item from the index,
  drops the last element of the vector and rethrows.  It sees the C++
  exceptions only.\<close>

definition push :: "'a compare \<Rightarrow> 'a \<Rightarrow> 'a EHeapQ \<Rightarrow> (error + unit) \<times> 'a EHeapQ" where
  "push comp' item s =
     (if index_map s item \<noteq> None then (Inl EHeapQAlreadyPresent, s)
      else if length (heap s) = size' s then
        (case pushpop comp' item s of
           (Inl e, s1) \<Rightarrow> (Inl e, s1)
         | (Inr _, s1) \<Rightarrow> (Inr (), s1))
      else
        (let s1 = index_insert item (length (heap s)) s;
             s2 = s1\<lparr>heap := heap s1 @ [item]\<rparr>
         in case siftdown comp' 0 (length (heap s2) - 1) s2 of
              (Inl e, s3) \<Rightarrow>
                (if e = UndefinedBehaviour \<or> e = Terminate then (Inl e, s3)
                 else (let s4 = index_erase item s3
                       in (Inl e, s4\<lparr>heap := butlast (heap s4)\<rparr>)))
            | (Inr _, s3) \<Rightarrow>
                (let s4 = set_last_item item s3
                 in if length (heap s4) = 1 then (Inr (), set_max_item item s4)
                    else maybe_adjust_max comp' item s4)))"

subsection \<open>\<^verbatim>\<open>pop\<close>\<close>

definition pop :: "'a compare \<Rightarrow> 'a EHeapQ \<Rightarrow> (error + 'a) \<times> 'a EHeapQ" where
  "pop comp' s =
     (case throw_on_empty s of
        Inl e \<Rightarrow> (Inl e, s)
      | Inr _ \<Rightarrow>
          (let result = heap s ! 0
           in case (if length (heap s) > 1 then
                      (let s1 = s\<lparr>heap := (heap s)[0 := last (heap s)]\<rparr>
                       in index_at_put (heap s1 ! 0) 0 s1)
                    else (Inr (), s)) of
                (Inl e, s2) \<Rightarrow> (Inl e, s2)
              | (Inr _, s2) \<Rightarrow>
                  (let s3 = s2\<lparr>heap := butlast (heap s2)\<rparr>;
                       s4 = index_erase result s3
                   in case siftup comp' 0 s4 of
                        (Inl e, s5) \<Rightarrow> (Inl e, s5)
                      | (Inr _, s5) \<Rightarrow>
                          (Inr result, maybe_del_max_item result (maybe_del_last_item result s5)))))"

subsection \<open>\<^verbatim>\<open>set_size\<close>, \<^verbatim>\<open>replace\<close>, \<^verbatim>\<open>remove\<close>\<close>

text \<open>The loop \<^verbatim>\<open>while (heap->size() > size) pop()\<close>; that it ends is shown
  below, once \<^verbatim>\<open>pop\<close> is known to shorten the vector.\<close>

function set_size_loop :: "'a compare \<Rightarrow> 'a EHeapQ \<Rightarrow> (error + unit) \<times> 'a EHeapQ" where
  "set_size_loop comp' s =
     (if length (heap s) > size' s then
        (case pop comp' s of
           (Inl e, s1) \<Rightarrow> (Inl e, s1)
         | (Inr _, s1) \<Rightarrow> set_size_loop comp' s1)
      else (Inr (), s))"
  by pat_completeness auto

definition set_size :: "'a compare \<Rightarrow> nat \<Rightarrow> 'a EHeapQ \<Rightarrow> (error + unit) \<times> 'a EHeapQ" where
  "set_size comp' new_size s = set_size_loop comp' (s\<lparr>size' := new_size\<rparr>)"

definition replace :: "'a compare \<Rightarrow> 'a \<Rightarrow> 'a EHeapQ \<Rightarrow> (error + 'a) \<times> 'a EHeapQ" where
  "replace comp' item s =
     (case throw_on_empty s of
        Inl e \<Rightarrow> (Inl e, s)
      | Inr _ \<Rightarrow>
          if index_map s item \<noteq> None then (Inl EHeapQAlreadyPresent, s)
          else
            (let result = heap s ! 0;
                 s1 = index_erase result s;
                 s2 = s1\<lparr>heap := (heap s1)[0 := item]\<rparr>;
                 s3 = index_insert item 0 s2
             in case siftup comp' 0 s3 of
                  (Inl e, s4) \<Rightarrow> (Inl e, s4)
                | (Inr _, s4) \<Rightarrow>
                    (let s5 = set_last_item result s4;
                         s6 = maybe_del_max_item result s5
                     in case maybe_adjust_max comp' result s6 of
                          (Inl e, s7) \<Rightarrow> (Inl e, s7)
                        | (Inr _, s7) \<Rightarrow> (Inr result, s7))))"

text \<open>\<^verbatim>\<open>remove\<close>.  The unchecked accesses \<^verbatim>\<open>data()[idx]\<close> and
  \<^verbatim>\<open>data()[size() - 1]\<close> of the second branch are inside the vector exactly
  when \<open>idx\<close> is below the length.  The label \<^verbatim>\<open>end\<close> is the pair of cache
  updates that closes both branches.\<close>

definition remove :: "'a compare \<Rightarrow> 'a \<Rightarrow> 'a EHeapQ \<Rightarrow> (error + unit) \<times> 'a EHeapQ" where
  "remove comp' item s =
     (let size = length (heap s)
      in case index_map s item of
           None \<Rightarrow> (Inl EHeapQNotFound, s)
         | Some idx_value \<Rightarrow>
             if size > 0 \<and> item = heap s ! (size - 1) then
               (let s1 = s\<lparr>heap := butlast (heap s)\<rparr>;
                    s2 = index_erase item s1
                in (Inr (), maybe_del_last_item item (maybe_del_max_item item s2)))
             else
               (let idx = idx_value
                in if idx \<ge> length (heap s) then (Inl UndefinedBehaviour, s)
                   else
                     (let s1 = s\<lparr>heap := (heap s)[idx := heap s ! (length (heap s) - 1)]\<rparr>;
                          s2 = s1\<lparr>heap := butlast (heap s1)\<rparr>;
                          s3 = index_erase item s2
                      in case (if idx < length (heap s3) then
                                 (case siftup comp' idx s3 of
                                    (Inl e, s4) \<Rightarrow> (Inl e, s4)
                                  | (Inr _, s4) \<Rightarrow> siftdown comp' 0 idx s4)
                               else (Inr (), s3)) of
                           (Inl e, s5) \<Rightarrow> (Inl e, s5)
                         | (Inr _, s5) \<Rightarrow>
                             (Inr (), maybe_del_last_item item (maybe_del_max_item item s5)))))"

subsection \<open>Sequences of public operations\<close>

text \<open>A run applies public operations one after the other and stops at the first
  one that does not return.\<close>

datatype 'a op = Push 'a | PushPop 'a | Pop | Replace 'a | Remove 'a | SetSize nat | GetMax

fun returned :: "(error + 'r) \<times> 'a EHeapQ \<Rightarrow> 'a EHeapQ option" where
  "returned (Inr _, s) = Some s"
| "returned (Inl _, s) = None"

fun apply_op :: "'a compare \<Rightarrow> 'a op \<Rightarrow> 'a EHeapQ \<Rightarrow> 'a EHeapQ option" where
  "apply_op comp' (Push item) s = returned (push comp' item s)"
| "apply_op comp' (PushPop item) s = returned (pushpop comp' item s)"
| "apply_op comp' Pop s = returned (pop comp' s)"
| "apply_op comp' (Replace item) s = returned (replace comp' item s)"
| "apply_op comp' (Remove item) s = returned (remove comp' item s)"
| "apply_op comp' (SetSize new_size) s = returned (set_size comp' new_size s)"
| "apply_op comp' GetMax s = returned (get_max comp' s)"

fun run_ops :: "'a compare \<Rightarrow> 'a op list \<Rightarrow> 'a EHeapQ \<Rightarrow> 'a EHeapQ option" where
  "run_ops comp' [] s = Some s"
| "run_ops comp' (x # xs) s =
     (case apply_op comp' x s of None \<Rightarrow> None | Some s' \<Rightarrow> run_ops comp' xs s')"

section \<open>Order, positions and invariants\<close>

definition lt :: "'a compare \<Rightarrow> 'a \<Rightarrow> 'a \<Rightarrow> bool" where
  "lt comp' a b \<longleftrightarrow> comp' a b = Some True"

definition parent_pos :: "nat \<Rightarrow> nat" where
  "parent_pos i = (i - 1) div 2"

definition strict_weak_order :: "'a compare \<Rightarrow> bool" where
  "strict_weak_order comp' \<longleftrightarrow>
     (\<forall>a b. comp' a b \<noteq> None) \<and>
     (\<forall>a. \<not> lt comp' a a) \<and>
     (\<forall>a b c. lt comp' a b \<and> lt comp' b c \<longrightarrow> lt comp' a c) \<and>
     (\<forall>a b c. \<not> lt comp' a b \<and> \<not> lt comp' b c \<longrightarrow> \<not> lt comp' a c)"

definition heap_order :: "'a compare \<Rightarrow> 'a list \<Rightarrow> bool" where
  "heap_order comp' xs \<longleftrightarrow> (\<forall>i\<in>{1..<length xs}. \<not> lt comp' (xs ! i) (xs ! parent_pos i))"

inductive desc :: "nat \<Rightarrow> nat \<Rightarrow> bool" for sp :: nat where
  desc_refl: "desc sp sp"
| desc_left: "desc sp p \<Longrightarrow> desc sp (2 * p + 1)"
| desc_right: "desc sp p \<Longrightarrow> desc sp (2 * p + 2)"

definition siftup_inv :: "'a compare \<Rightarrow> nat \<Rightarrow> nat \<Rightarrow> 'a list \<Rightarrow> bool" where
  "siftup_inv comp' sp pos xs \<longleftrightarrow>
     desc sp pos \<and> pos < length xs \<and>
     (\<forall>i. 0 < i \<and> i < length xs \<and> i \<noteq> pos \<and> parent_pos i \<noteq> pos \<and> i \<noteq> sp \<longrightarrow>
          \<not> lt comp' (xs ! i) (xs ! parent_pos i)) \<and>
     (sp < pos \<longrightarrow> (\<forall>k. 0 < k \<and> k < length xs \<and> parent_pos k = pos \<longrightarrow>
          \<not> lt comp' (xs ! k) (xs ! parent_pos pos))) \<and>
     (0 < sp \<longrightarrow> (\<forall>k. k < length xs \<and> (k = sp \<or> 0 < k \<and> parent_pos k = sp) \<and> k \<noteq> pos \<longrightarrow>
          \<not> lt comp' (xs ! k) (xs ! parent_pos sp)))"

definition siftdown_inv :: "'a compare \<Rightarrow> nat \<Rightarrow> nat \<Rightarrow> 'a list \<Rightarrow> bool" where
  "siftdown_inv comp' sp pos xs \<longleftrightarrow>
     desc sp pos \<and> pos < length xs \<and>
     (\<forall>i. 0 < i \<and> i < length xs \<and> i \<noteq> pos \<and> i \<noteq> sp \<longrightarrow>
          \<not> lt comp' (xs ! i) (xs ! parent_pos i)) \<and>
     (sp < pos \<longrightarrow> (\<forall>k. 0 < k \<and> k < length xs \<and> parent_pos k = pos \<longrightarrow>
          \<not> lt comp' (xs ! k) (xs ! parent_pos pos))) \<and>
     (0 < sp \<longrightarrow> (\<forall>k. k < length xs \<and> (k = sp \<or> 0 < k \<and> parent_pos k = sp) \<and> k \<noteq> pos \<longrightarrow>
          \<not> lt comp' (xs ! k) (xs ! parent_pos sp)))"

definition sift_post :: "'a compare \<Rightarrow> nat \<Rightarrow> 'a list \<Rightarrow> bool" where
  "sift_post comp' sp xs \<longleftrightarrow>
     (\<forall>i. 0 < i \<and> i < length xs \<and> i \<noteq> sp \<longrightarrow> \<not> lt comp' (xs ! i) (xs ! parent_pos i)) \<and>
     (0 < sp \<longrightarrow> (\<forall>k. 0 < k \<and> k < length xs \<and> parent_pos k = sp \<longrightarrow>
          \<not> lt comp' (xs ! k) (xs ! parent_pos sp)))"

text \<open>One exchange of two vector slots together with the two index updates, as both
  loops do it, and the choice of the child in \<^verbatim>\<open>siftup\<close>.\<close>

definition swap_at :: "nat \<Rightarrow> nat \<Rightarrow> 'a EHeapQ \<Rightarrow> 'a EHeapQ" where
  "swap_at i j s =
     s\<lparr>heap := (heap s)[i := heap s ! j, j := heap s ! i],
       index_map := (index_map s)(heap s ! j \<mapsto> i, heap s ! i \<mapsto> j)\<rparr>"

definition child_choice :: "'a compare \<Rightarrow> nat \<Rightarrow> nat \<Rightarrow> 'a list \<Rightarrow> error + nat" where
  "child_choice comp' endpos pos xs =
     (if 2 * pos + 1 + 1 < endpos then
        (case comp' (xs ! (2 * pos + 1)) (xs ! (2 * pos + 1 + 1)) of
           None \<Rightarrow> Inl CompareError
         | Some cmp \<Rightarrow> Inr (2 * pos + 1 + (if cmp then 0 else 1)))
      else Inr (2 * pos + 1))"

definition same_items :: "'a EHeapQ \<Rightarrow> 'a EHeapQ \<Rightarrow> bool" where
  "same_items s t \<longleftrightarrow>
     length (heap t) = length (heap s) \<and> mset (heap t) = mset (heap s) \<and>
     size' t = size' s \<and> last_item t = last_item s \<and> last_item_set t = last_item_set s \<and>
     max_item t = max_item s \<and> max_item_set t = max_item_set s"

text \<open>Index consistency: every stored element is recorded at its own position,
  and the index has as many entries as the vector has elements.\<close>

definition index_consistent :: "'a EHeapQ \<Rightarrow> bool" where
  "index_consistent s \<longleftrightarrow>
     (\<forall>i\<in>{0..<length (heap s)}. index_map s (heap s ! i) = Some i) \<and>
     finite (dom (index_map s)) \<and> card (dom (index_map s)) = length (heap s)"

text \<open>The same, as one equivalence: the index is the inverse of the vector.\<close>

definition index_wf :: "'a EHeapQ \<Rightarrow> bool" where
  "index_wf s \<longleftrightarrow>
     (\<forall>x i. index_map s x = Some i \<longleftrightarrow> i < length (heap s) \<and> heap s ! i = x)"

text \<open>The scans that the specification compares \<^verbatim>\<open>get_max\<close> with: a full
  linear scan of all elements, and a scan of the positions
  \<open>\<lceil>length/2\<rceil> \<dots> length - 1\<close>.  Both run the loop of \<^verbatim>\<open>get_max\<close> itself,
  from another first position.\<close>

definition linear_scan_max :: "'a compare \<Rightarrow> 'a list \<Rightarrow> error + 'a" where
  "linear_scan_max comp' xs = get_max_loop comp' xs 1 (xs ! 0)"

definition ceil_half_scan_max :: "'a compare \<Rightarrow> 'a list \<Rightarrow> error + 'a" where
  "ceil_half_scan_max comp' xs =
     get_max_loop comp' xs ((length xs + 1) div 2 + 1) (xs ! ((length xs + 1) div 2))"

subsection \<open>Concrete comparators and states\<close>

text \<open>\<^verbatim>\<open>std::less\<close> on numbers, and a comparator that throws on one pair.\<close>

definition nat_less :: "nat compare" where
  "nat_less a b = Some (a < b)"

definition throwing_less :: "nat compare" where
  "throwing_less a b = (if a = 0 \<and> b = 1 then None else Some (a < b))"

text \<open>The state after \<^verbatim>\<open>push(3); push(5)\<close> on a heap of capacity 10.\<close>

definition heap_3_5 :: "nat EHeapQ" where
  "heap_3_5 =
     \<lparr>heap = [3, 5], size' = 10, last_item = 5, last_item_set = True,
      max_item = 5, max_item_set = True, index_map = [3 \<mapsto> 0, 5 \<mapsto> 1]\<rparr>"

text \<open>A state with the vector \<open>[1, 3, 2]\<close> and no cached maximum, as left by
  \<^verbatim>\<open>push(1); push(3); push(2); push(4); remove(4)\<close>.\<close>

definition heap_1_3_2 :: "nat EHeapQ" where
  "heap_1_3_2 =
     \<lparr>heap = [1, 3, 2], size' = 10, last_item = 4, last_item_set = False,
      max_item = 4, max_item_set = False, index_map = [1 \<mapsto> 0, 3 \<mapsto> 1, 2 \<mapsto> 2]\<rparr>"

section \<open>The sift loops\<close>

lemma index_at_put_fields:
  "index_at_put k v s = (r, s') \<Longrightarrow>
     heap s' = heap s \<and> size' s' = size' s \<and> last_item s' = last_item s \<and>
     last_item_set s' = last_item_set s \<and> max_item s' = max_item s \<and>
     max_item_set s' = max_item_set s"
  by (auto simp: index_at_put_def split: option.splits)

lemma parent_pos_less: "0 < i \<Longrightarrow> parent_pos i < i"
  unfolding parent_pos_def by arith

lemma parent_pos_eq_iff: "0 < k \<Longrightarrow> parent_pos k = p \<longleftrightarrow> k = 2 * p + 1 \<or> k = 2 * p + 2"
  by (simp add: parent_pos_def) arith

lemma parent_pos_child [simp]: "parent_pos (2 * p + 1) = p" "parent_pos (2 * p + 2) = p"
  by (simp_all add: parent_pos_def)

lemma desc_le: "desc sp p \<Longrightarrow> sp \<le> p"
  by (induction rule: desc.induct) auto

lemma desc_parent: "desc sp p \<Longrightarrow> sp < p \<Longrightarrow> desc sp (parent_pos p)"
  by (erule desc.cases) (auto simp: parent_pos_def)

lemma swo_asym: "strict_weak_order c \<Longrightarrow> lt c a b \<Longrightarrow> \<not> lt c b a"
  unfolding strict_weak_order_def by blast

lemma swo_trans: "strict_weak_order c \<Longrightarrow> lt c a b \<Longrightarrow> lt c b d \<Longrightarrow> lt c a d"
  unfolding strict_weak_order_def by blast

lemma swo_ntrans: "strict_weak_order c \<Longrightarrow> \<not> lt c a b \<Longrightarrow> \<not> lt c b d \<Longrightarrow> \<not> lt c a d"
  unfolding strict_weak_order_def by blast

lemma siftdown_inv_step:
  assumes swo: "strict_weak_order c" and inv: "siftdown_inv c sp pos xs"
    and gt: "sp < pos" and less: "lt c (xs ! pos) (xs ! parent_pos pos)"
  shows "siftdown_inv c sp (parent_pos pos)
           (xs[parent_pos pos := xs ! pos, pos := xs ! parent_pos pos])"
proof -
  define pp where "pp = parent_pos pos"
  define ys where "ys = xs[pp := xs ! pos, pos := xs ! pp]"
  from inv have d: "desc sp pos" and len: "pos < length xs"
    and A: "\<And>i. 0 < i \<Longrightarrow> i < length xs \<Longrightarrow> i \<noteq> pos \<Longrightarrow> i \<noteq> sp \<Longrightarrow>
              \<not> lt c (xs ! i) (xs ! parent_pos i)"
    and B: "\<And>k. 0 < k \<Longrightarrow> k < length xs \<Longrightarrow> parent_pos k = pos \<Longrightarrow> \<not> lt c (xs ! k) (xs ! pp)"
    and C: "\<And>k. 0 < sp \<Longrightarrow> k < length xs \<Longrightarrow> k = sp \<or> 0 < k \<and> parent_pos k = sp \<Longrightarrow> k \<noteq> pos \<Longrightarrow>
              \<not> lt c (xs ! k) (xs ! parent_pos sp)"
    using gt by (auto simp: siftdown_inv_def pp_def)
  have pp_lt: "pp < pos" using gt by (simp add: pp_def parent_pos_less)
  have dpp: "desc sp pp" using d gt by (simp add: pp_def desc_parent)
  have sp_le: "sp \<le> pp" using dpp by (rule desc_le)
  have ys_nth: "\<And>i. i < length xs \<Longrightarrow>
      ys ! i = (if i = pos then xs ! pp else if i = pp then xs ! pos else xs ! i)"
    using len pp_lt by (simp add: ys_def nth_list_update)
  have ys_len: "length ys = length xs" by (simp add: ys_def)
  have less': "lt c (xs ! pos) (xs ! pp)" using less by (simp add: pp_def)
  have A': "\<not> lt c (ys ! i) (ys ! parent_pos i)"
    if i: "0 < i" "i < length xs" "i \<noteq> pp" "i \<noteq> sp" for i
  proof -
    have pi: "parent_pos i < length xs" "parent_pos i < i"
      using i parent_pos_less [of i] by auto
    consider "i = pos" | "i \<noteq> pos" "parent_pos i = pp" | "parent_pos i = pos"
      | "i \<noteq> pos" "parent_pos i \<noteq> pp" "parent_pos i \<noteq> pos" by blast
    then show ?thesis
    proof cases
      case 1
      then show ?thesis using ys_nth [of pos] ys_nth [of pp] len pp_lt less' swo_asym [OF swo]
        by (auto simp: pp_def)
    next
      case 2
      have "i \<noteq> sp" using i by simp
      have "\<not> lt c (xs ! i) (xs ! pp)" using A [of i] i 2 by simp
      then have "\<not> lt c (xs ! i) (xs ! pos)" using swo_trans [OF swo _ less'] by blast
      then show ?thesis using ys_nth [of i] ys_nth [of pp] 2 i pi pp_lt by auto
    next
      case 3
      then have "i \<noteq> pos" using pi by auto
      with 3 show ?thesis using ys_nth [of i] ys_nth [of pos] B [of i] i len by auto
    next
      case 4
      then show ?thesis using ys_nth [of i] ys_nth [of "parent_pos i"] A [of i] i pi by auto
    qed
  qed
  have B': "\<not> lt c (ys ! k) (ys ! parent_pos pp)"
    if k: "sp < pp" "0 < k" "k < length xs" "parent_pos k = pp" for k
  proof -
    have ppp: "parent_pos pp < pp" using k by (simp add: parent_pos_less)
    have e1: "ys ! parent_pos pp = xs ! parent_pos pp"
      using ys_nth [of "parent_pos pp"] ppp pp_lt len by auto
    have okpp: "\<not> lt c (xs ! pp) (xs ! parent_pos pp)"
      using A [of pp] k pp_lt len by auto
    show ?thesis
    proof (cases "k = pos")
      case True
      then show ?thesis using ys_nth [of pos] len e1 okpp by simp
    next
      case False
      have "k \<noteq> pp" using k parent_pos_less [of k] by auto
      moreover have "k \<noteq> sp" using k parent_pos_less [of k] by auto
      ultimately have "\<not> lt c (xs ! k) (xs ! pp)" using A [of k] k False by auto
      then have "\<not> lt c (xs ! k) (xs ! parent_pos pp)" using okpp swo_ntrans [OF swo] by blast
      then show ?thesis using ys_nth [of k] False \<open>k \<noteq> pp\<close> k e1 by simp
    qed
  qed
  have C': "\<not> lt c (ys ! k) (ys ! parent_pos sp)"
    if k: "0 < sp" "k < length xs" "k = sp \<or> 0 < k \<and> parent_pos k = sp" "k \<noteq> pp" for k
  proof -
    have psp: "parent_pos sp < sp" using k by (simp add: parent_pos_less)
    have e1: "ys ! parent_pos sp = xs ! parent_pos sp"
      using ys_nth [of "parent_pos sp"] psp sp_le pp_lt len by auto
    show ?thesis
    proof (cases "k = pos")
      case True
      then have "parent_pos pos = sp" using k gt by auto
      then have "pp = sp" by (simp add: pp_def)
      then have "\<not> lt c (xs ! pp) (xs ! parent_pos sp)"
        using C [of sp] k gt pp_lt len by auto
      then show ?thesis using True ys_nth [of pos] len e1 by simp
    next
      case False
      then show ?thesis using ys_nth [of k] k C [of k] e1 by auto
    qed
  qed
  have "siftdown_inv c sp pp ys"
    unfolding siftdown_inv_def using dpp pp_lt len A' B' C' by (auto simp: ys_len)
  then show ?thesis by (simp add: pp_def ys_def)
qed


lemma siftup_inv_step:
  assumes swo: "strict_weak_order c" and inv: "siftup_inv c sp pos xs"
    and k: "k = 2 * pos + 1 \<or> k = 2 * pos + 2" and klen: "k < length xs"
    and choice: "\<And>j. 0 < j \<Longrightarrow> j < length xs \<Longrightarrow> parent_pos j = pos \<Longrightarrow> j \<noteq> k \<Longrightarrow>
                   \<not> lt c (xs ! j) (xs ! k)"
  shows "siftup_inv c sp k (xs[k := xs ! pos, pos := xs ! k])"
proof -
  define ys where "ys = xs[k := xs ! pos, pos := xs ! k]"
  from inv have d: "desc sp pos" and len: "pos < length xs"
    and A: "\<And>i. 0 < i \<Longrightarrow> i < length xs \<Longrightarrow> i \<noteq> pos \<Longrightarrow> parent_pos i \<noteq> pos \<Longrightarrow> i \<noteq> sp \<Longrightarrow>
              \<not> lt c (xs ! i) (xs ! parent_pos i)"
    and B: "\<And>j. sp < pos \<Longrightarrow> 0 < j \<Longrightarrow> j < length xs \<Longrightarrow> parent_pos j = pos \<Longrightarrow>
              \<not> lt c (xs ! j) (xs ! parent_pos pos)"
    and C: "\<And>j. 0 < sp \<Longrightarrow> j < length xs \<Longrightarrow> j = sp \<or> 0 < j \<and> parent_pos j = sp \<Longrightarrow> j \<noteq> pos \<Longrightarrow>
              \<not> lt c (xs ! j) (xs ! parent_pos sp)"
    by (auto simp: siftup_inv_def)
  have pk: "parent_pos k = pos" "pos < k" "0 < k" using k by (auto simp: parent_pos_def)
  have dk: "desc sp k" using k d by (blast intro: desc.intros)
  have sp_le: "sp \<le> pos" using d by (rule desc_le)
  have ys_nth: "\<And>i. i < length xs \<Longrightarrow>
      ys ! i = (if i = pos then xs ! k else if i = k then xs ! pos else xs ! i)"
    using len klen pk by (simp add: ys_def nth_list_update)
  have ys_len: "length ys = length xs" by (simp add: ys_def)
  have A': "\<not> lt c (ys ! i) (ys ! parent_pos i)"
    if i: "0 < i" "i < length xs" "i \<noteq> k" "parent_pos i \<noteq> k" "i \<noteq> sp" for i
  proof -
    have pi: "parent_pos i < length xs" "parent_pos i < i"
      using i parent_pos_less [of i] by auto
    consider "i = pos" | "parent_pos i = pos" | "i \<noteq> pos" "parent_pos i \<noteq> pos" by blast
    then show ?thesis
    proof cases
      case 1
      then have "sp < pos" using sp_le i by simp
      then have "\<not> lt c (xs ! k) (xs ! parent_pos pos)" using B [of k] pk klen by simp
      moreover have "parent_pos pos \<noteq> k" "parent_pos pos \<noteq> pos" using pi pk 1 by auto
      ultimately show ?thesis using 1 ys_nth [of pos] ys_nth [of "parent_pos pos"] pi len by simp
    next
      case 2
      then have "i \<noteq> pos" using pi by auto
      then show ?thesis using 2 ys_nth [of i] ys_nth [of pos] i len choice [of i] by simp
    next
      case 3
      then show ?thesis using ys_nth [of i] ys_nth [of "parent_pos i"] A [of i] i pi by simp
    qed
  qed
  have B': "\<not> lt c (ys ! j) (ys ! parent_pos k)"
    if j: "0 < j" "j < length xs" "parent_pos j = k" for j
  proof -
    have "k < j" using j parent_pos_less [of j] by auto
    then have "j \<noteq> pos" "j \<noteq> k" "j \<noteq> sp" using pk sp_le by auto
    then have "\<not> lt c (xs ! j) (xs ! k)" using A [of j] j pk by auto
    then show ?thesis using ys_nth [of j] ys_nth [of pos] \<open>j \<noteq> pos\<close> \<open>j \<noteq> k\<close> j len pk by simp
  qed
  have C': "\<not> lt c (ys ! j) (ys ! parent_pos sp)"
    if j: "0 < sp" "j < length xs" "j = sp \<or> 0 < j \<and> parent_pos j = sp" "j \<noteq> k" for j
  proof -
    have psp: "parent_pos sp < sp" using j by (simp add: parent_pos_less)
    have e1: "ys ! parent_pos sp = xs ! parent_pos sp"
      using ys_nth [of "parent_pos sp"] psp sp_le pk len by auto
    show ?thesis
    proof (cases "j = pos")
      case True
      show ?thesis
      proof (cases "pos = sp")
        case True
        then have "\<not> lt c (xs ! k) (xs ! parent_pos sp)" using C [of k] j klen pk by auto
        then show ?thesis using \<open>j = pos\<close> ys_nth [of pos] len e1 by simp
      next
        case False
        then have sp_lt: "sp < pos" and par: "parent_pos pos = sp" using sp_le j True by auto
        have "\<not> lt c (xs ! k) (xs ! sp)" using B [of k] sp_lt pk klen par by simp
        moreover have "\<not> lt c (xs ! sp) (xs ! parent_pos sp)"
          using C [of sp] j sp_lt len by auto
        ultimately have "\<not> lt c (xs ! k) (xs ! parent_pos sp)" using swo_ntrans [OF swo] by blast
        then show ?thesis using \<open>j = pos\<close> ys_nth [of pos] len e1 by simp
      qed
    next
      case False
      then show ?thesis using ys_nth [of j] j C [of j] e1 by auto
    qed
  qed
  have "siftup_inv c sp k ys"
    unfolding siftup_inv_def using dk klen pk A' B' C' by (auto simp: ys_len)
  then show ?thesis by (simp add: ys_def)
qed

lemma siftup_inv_leaf:
  assumes "siftup_inv c sp pos xs" and "\<not> pos < length xs div 2"
  shows "siftdown_inv c sp pos xs"
proof -
  have "\<not> (0 < i \<and> i < length xs \<and> parent_pos i = pos)" for i
    using assms(2) unfolding parent_pos_def by arith
  with assms(1) show ?thesis
    unfolding siftup_inv_def siftdown_inv_def by blast
qed

lemma siftdown_inv_post:
  assumes swo: "strict_weak_order c" and inv: "siftdown_inv c sp pos xs"
    and stop: "pos \<le> sp \<or> \<not> lt c (xs ! pos) (xs ! parent_pos pos)"
  shows "sift_post c sp xs"
proof -
  from inv have d: "desc sp pos" and len: "pos < length xs"
    and A: "\<And>i. 0 < i \<Longrightarrow> i < length xs \<Longrightarrow> i \<noteq> pos \<Longrightarrow> i \<noteq> sp \<Longrightarrow>
              \<not> lt c (xs ! i) (xs ! parent_pos i)"
    and C: "\<And>k. 0 < sp \<Longrightarrow> k < length xs \<Longrightarrow> k = sp \<or> 0 < k \<and> parent_pos k = sp \<Longrightarrow> k \<noteq> pos \<Longrightarrow>
              \<not> lt c (xs ! k) (xs ! parent_pos sp)"
    by (auto simp: siftdown_inv_def)
  have sp_le: "sp \<le> pos" using d by (rule desc_le)
  have P1: "\<not> lt c (xs ! i) (xs ! parent_pos i)" if "0 < i" "i < length xs" "i \<noteq> sp" for i
    using A [of i] that stop sp_le by (cases "i = pos") auto
  have P2: "\<not> lt c (xs ! k) (xs ! parent_pos sp)"
    if k: "0 < sp" "0 < k" "k < length xs" "parent_pos k = sp" for k
  proof (cases "k = pos")
    case True
    then have "sp < pos" using k parent_pos_less [of k] by auto
    then have "\<not> lt c (xs ! pos) (xs ! sp)" using stop True k by auto
    moreover have "\<not> lt c (xs ! sp) (xs ! parent_pos sp)"
      using C [of sp] k \<open>sp < pos\<close> len by auto
    ultimately show ?thesis using True swo_ntrans [OF swo] by blast
  next
    case False
    then show ?thesis using C [of k] k by auto
  qed
  show ?thesis unfolding sift_post_def using P1 P2 by blast
qed


lemma swap_at_fields [simp]:
  "heap (swap_at i j s) = (heap s)[i := heap s ! j, j := heap s ! i]"
  "index_map (swap_at i j s) = (index_map s)(heap s ! j \<mapsto> i, heap s ! i \<mapsto> j)"
  "size' (swap_at i j s) = size' s"
  "last_item (swap_at i j s) = last_item s"
  "last_item_set (swap_at i j s) = last_item_set s"
  "max_item (swap_at i j s) = max_item s"
  "max_item_set (swap_at i j s) = max_item_set s"
  by (simp_all add: swap_at_def)

lemma siftdown_loop_stop:
  "\<not> startpos < pos \<Longrightarrow> siftdown_loop comp' startpos pos s = (Inr (), s)"
  by (subst siftdown_loop.simps) simp

lemma siftdown_loop_break:
  "comp' (heap s ! pos) (heap s ! parent_pos pos) = Some False \<Longrightarrow>
   siftdown_loop comp' startpos pos s = (Inr (), s)"
  by (subst siftdown_loop.simps) (simp add: Let_def parent_pos_def)

lemma siftdown_loop_throw:
  "startpos < pos \<Longrightarrow> comp' (heap s ! pos) (heap s ! parent_pos pos) = None \<Longrightarrow>
   siftdown_loop comp' startpos pos s = (Inl CompareError, s)"
  by (subst siftdown_loop.simps) (simp add: Let_def parent_pos_def)

lemma siftdown_loop_step:
  "startpos < pos \<Longrightarrow> comp' (heap s ! pos) (heap s ! parent_pos pos) = Some True \<Longrightarrow>
   index_map s (heap s ! pos) \<noteq> None \<Longrightarrow> index_map s (heap s ! parent_pos pos) \<noteq> None \<Longrightarrow>
   siftdown_loop comp' startpos pos s =
     siftdown_loop comp' startpos (parent_pos pos) (swap_at (parent_pos pos) pos s)"
  by (subst siftdown_loop.simps)
     (auto simp: Let_def index_at_put_def swap_at_def parent_pos_def)

lemma siftdown_loop_Inr:
  "siftdown_loop comp' startpos pos s = (Inr u, s') \<Longrightarrow> startpos < pos \<Longrightarrow>
   comp' (heap s ! pos) (heap s ! parent_pos pos) = Some True \<Longrightarrow>
   siftdown_loop comp' startpos (parent_pos pos) (swap_at (parent_pos pos) pos s) = (Inr u, s')"
  by (subst (asm) siftdown_loop.simps)
     (auto simp: Let_def index_at_put_def swap_at_def parent_pos_def
           split: option.splits if_splits)

lemma siftdown_loop_rule:
  assumes run: "siftdown_loop c sp pos s = (Inr u, s')"
    and init: "I pos s"
    and step: "\<And>p t. I p t \<Longrightarrow> sp < p \<Longrightarrow> lt c (heap t ! p) (heap t ! parent_pos p) \<Longrightarrow>
                 I (parent_pos p) (swap_at (parent_pos p) p t)"
  shows "\<exists>p. I p s' \<and> (p \<le> sp \<or> \<not> lt c (heap s' ! p) (heap s' ! parent_pos p))"
  using run init
proof (induction pos arbitrary: s rule: less_induct)
  case (less pos)
  show ?case
  proof (cases "sp < pos")
    case False
    then have "s' = s" using less.prems(1) by (simp add: siftdown_loop_stop)
    with False less.prems(2) show ?thesis by auto
  next
    case True
    show ?thesis
    proof (cases "c (heap s ! pos) (heap s ! parent_pos pos)")
      case None
      with True less.prems(1) show ?thesis by (simp add: siftdown_loop_throw)
    next
      case (Some b)
      show ?thesis
      proof (cases b)
        case False
        with Some have "s' = s" using less.prems(1) by (simp add: siftdown_loop_break)
        with Some False less.prems(2) show ?thesis by (auto simp: lt_def)
      next
        case True
        with Some have l: "lt c (heap s ! pos) (heap s ! parent_pos pos)" by (simp add: lt_def)
        have rec: "siftdown_loop c sp (parent_pos pos) (swap_at (parent_pos pos) pos s) = (Inr u, s')"
          using siftdown_loop_Inr [OF less.prems(1) \<open>sp < pos\<close>] Some True by simp
        have "parent_pos pos < pos" using \<open>sp < pos\<close> by (simp add: parent_pos_less)
        then show ?thesis
          using less.IH [OF _ rec] step [OF less.prems(2) \<open>sp < pos\<close> l] by blast
      qed
    qed
  qed
qed

lemma siftup_loop_stop:
  "\<not> pos < limit \<Longrightarrow> siftup_loop comp' endpos limit pos s = (Inr pos, s)"
  by (subst siftup_loop.simps) simp

lemma siftup_loop_throw:
  "pos < limit \<Longrightarrow> child_choice comp' endpos pos (heap s) = Inl e \<Longrightarrow>
   siftup_loop comp' endpos limit pos s = (Inl e, s)"
  by (subst siftup_loop.simps) (simp add: child_choice_def)

lemma siftup_loop_step:
  "pos < limit \<Longrightarrow> child_choice comp' endpos pos (heap s) = Inr k \<Longrightarrow>
   index_map s (heap s ! pos) \<noteq> None \<Longrightarrow> index_map s (heap s ! k) \<noteq> None \<Longrightarrow>
   siftup_loop comp' endpos limit pos s = siftup_loop comp' endpos limit k (swap_at k pos s)"
  by (subst siftup_loop.simps)
     (auto simp: Let_def index_at_put_def swap_at_def child_choice_def)

lemma siftup_loop_Inr:
  "siftup_loop comp' endpos limit pos s = (Inr q, s') \<Longrightarrow> pos < limit \<Longrightarrow>
   \<exists>k. child_choice comp' endpos pos (heap s) = Inr k \<and>
       siftup_loop comp' endpos limit k (swap_at k pos s) = (Inr q, s')"
  by (subst (asm) siftup_loop.simps)
     (auto simp: Let_def index_at_put_def swap_at_def child_choice_def
           split: option.splits if_splits sum.splits)

lemma child_choice_range:
  "child_choice c endpos pos xs = Inr k \<Longrightarrow> k = 2 * pos + 1 \<or> k = 2 * pos + 2"
  by (auto simp: child_choice_def split: if_splits option.splits)

lemma siftup_loop_rule:
  assumes run: "siftup_loop c endpos limit pos s = (Inr q, s')"
    and init: "I pos s"
    and step: "\<And>p t k. I p t \<Longrightarrow> p < limit \<Longrightarrow> child_choice c endpos p (heap t) = Inr k \<Longrightarrow>
                 I k (swap_at k p t)"
  shows "I q s' \<and> \<not> q < limit"
  using run init
proof (induction "limit - pos" arbitrary: pos s rule: less_induct)
  case less
  show ?case
  proof (cases "pos < limit")
    case False
    then have "s' = s" "q = pos" using less.prems(1) by (simp_all add: siftup_loop_stop)
    with False less.prems(2) show ?thesis by auto
  next
    case True
    from siftup_loop_Inr [OF less.prems(1) True]
    obtain k where k: "child_choice c endpos pos (heap s) = Inr k"
      and rec: "siftup_loop c endpos limit k (swap_at k pos s) = (Inr q, s')" by blast
    have "pos < k" using child_choice_range [OF k] by auto
    then have "limit - k < limit - pos" using True by simp
    then show ?thesis
      using less.hyps [OF _ rec] step [OF less.prems(2) True k] by blast
  qed
qed


lemma same_items_refl [simp]: "same_items s s"
  by (simp add: same_items_def)

lemma same_items_swap:
  "same_items s t \<Longrightarrow> i < length (heap t) \<Longrightarrow> j < length (heap t) \<Longrightarrow>
   same_items s (swap_at i j t)"
  by (simp add: same_items_def mset_swap)

lemma child_choice_less:
  "child_choice c endpos p xs = Inr k \<Longrightarrow> p < endpos div 2 \<Longrightarrow> k < endpos"
  by (auto simp: child_choice_def split: if_splits option.splits)

lemma siftdown_loop_same_items:
  assumes "siftdown_loop c sp pos s = (Inr u, s')" and "pos < length (heap s)"
  shows "same_items s s'"
proof -
  have "\<exists>p. (p < length (heap s') \<and> same_items s s') \<and>
            (p \<le> sp \<or> \<not> lt c (heap s' ! p) (heap s' ! parent_pos p))"
  proof (rule siftdown_loop_rule [OF assms(1), where I = "\<lambda>p t. p < length (heap t) \<and> same_items s t"])
    show "pos < length (heap s) \<and> same_items s s" using assms(2) by simp
  next
    fix p t
    assume I: "p < length (heap t) \<and> same_items s t" and "sp < p"
    then have "parent_pos p < p" by (simp add: parent_pos_less)
    with I show "parent_pos p < length (heap (swap_at (parent_pos p) p t)) \<and>
                 same_items s (swap_at (parent_pos p) p t)"
      by (simp add: same_items_swap)
  qed
  then show ?thesis by blast
qed

lemma siftup_loop_same_items:
  assumes "siftup_loop c (length (heap s)) (length (heap s) div 2) pos s = (Inr q, s')"
    and "pos < length (heap s)"
  shows "same_items s s' \<and> q < length (heap s')"
proof -
  have "(q < length (heap s') \<and> same_items s s') \<and> \<not> q < length (heap s) div 2"
  proof (rule siftup_loop_rule [OF assms(1), where I = "\<lambda>p t. p < length (heap t) \<and> same_items s t"])
    show "pos < length (heap s) \<and> same_items s s" using assms(2) by simp
  next
    fix p t k
    assume I: "p < length (heap t) \<and> same_items s t" and p: "p < length (heap s) div 2"
      and k: "child_choice c (length (heap s)) p (heap t) = Inr k"
    have "k < length (heap s)" using child_choice_less [OF k p] .
    moreover have "length (heap t) = length (heap s)" using I by (simp add: same_items_def)
    ultimately show "k < length (heap (swap_at k p t)) \<and> same_items s (swap_at k p t)"
      using I by (simp add: same_items_swap)
  qed
  then show ?thesis by blast
qed

lemma same_items_trans: "same_items s t \<Longrightarrow> same_items t u \<Longrightarrow> same_items s u"
  by (simp add: same_items_def)

lemma siftdown_same_items:
  "siftdown c sp pos s = (Inr u, s') \<Longrightarrow> same_items s s'"
  by (auto simp: siftdown_def split: if_splits dest: siftdown_loop_same_items)

lemma siftup_same_items:
  assumes "siftup c pos s = (Inr u, s')" and "pos < length (heap s) \<or> heap s = []"
  shows "same_items s s'"
proof (cases "heap s = []")
  case True
  then have "siftup_loop c (length (heap s)) (length (heap s) div 2) pos s = (Inr pos, s)"
    by (simp add: siftup_loop_stop)
  with assms(1) True show ?thesis
    by (simp add: siftup_def siftdown_def)
next
  case False
  with assms(2) have pos: "pos < length (heap s)" by simp
  obtain r s1 where l: "siftup_loop c (length (heap s)) (length (heap s) div 2) pos s = (r, s1)"
    by (cases "siftup_loop c (length (heap s)) (length (heap s) div 2) pos s")
  with assms(1) obtain q where r: "r = Inr q" and d: "siftdown c pos q s1 = (Inr u, s')"
    by (cases r) (auto simp: siftup_def Let_def)
  from siftup_loop_same_items [OF l [unfolded r] pos] siftdown_same_items [OF d]
  show ?thesis by (blast intro: same_items_trans)
qed


lemma maybe_del_fields [simp]:
  "heap (maybe_del_max_item x s) = heap s" "heap (maybe_del_last_item x s) = heap s"
  "index_map (maybe_del_max_item x s) = index_map s"
  "index_map (maybe_del_last_item x s) = index_map s"
  "size' (maybe_del_max_item x s) = size' s" "size' (maybe_del_last_item x s) = size' s"
  by (simp_all add: maybe_del_max_item_def maybe_del_last_item_def)

lemma index_erase_fields [simp]:
  "heap (index_erase k s) = heap s" "size' (index_erase k s) = size' s"
  "index_map (index_erase k s) = (index_map s)(k := None)"
  by (simp_all add: index_erase_def)

lemma pop_Inr:
  assumes "pop c s = (Inr r, s')"
  shows "\<exists>s2 s5 u. heap s \<noteq> [] \<and> r = heap s ! 0 \<and>
           (if length (heap s) > 1
            then index_at_put (last (heap s)) 0 (s\<lparr>heap := (heap s)[0 := last (heap s)]\<rparr>)
                   = (Inr (), s2)
            else s2 = s) \<and>
           siftup c 0 (index_erase r (s2\<lparr>heap := butlast (heap s2)\<rparr>)) = (Inr u, s5) \<and>
           s' = maybe_del_max_item r (maybe_del_last_item r s5)"
  using assms
  by (auto simp: pop_def throw_on_empty_def Let_def
           split: if_splits sum.splits prod.splits)

lemma pop_length:
  assumes "pop c s = (Inr r, s')"
  shows "length (heap s') < length (heap s)"
proof -
  from pop_Inr [OF assms] obtain s2 s5 u where ne: "heap s \<noteq> []"
    and p2: "if length (heap s) > 1
            then index_at_put (last (heap s)) 0 (s\<lparr>heap := (heap s)[0 := last (heap s)]\<rparr>)
                   = (Inr (), s2)
            else s2 = s"
    and su: "siftup c 0 (index_erase r (s2\<lparr>heap := butlast (heap s2)\<rparr>)) = (Inr u, s5)"
    and s': "s' = maybe_del_max_item r (maybe_del_last_item r s5)"
    by blast
  have l2: "length (heap s2) = length (heap s)"
    using p2 by (auto split: if_splits dest: index_at_put_fields)
  define s4 where "s4 = index_erase r (s2\<lparr>heap := butlast (heap s2)\<rparr>)"
  have l4: "length (heap s4) = length (heap s) - 1"
    using l2 by (simp add: s4_def)
  have "0 < length (heap s4) \<or> heap s4 = []" by auto
  from siftup_same_items [OF su [folded s4_def] this] l4 ne s' show ?thesis
    by (simp add: same_items_def)
qed

subsection \<open>The loop of \<^verbatim>\<open>set_size\<close> ends\<close>

termination set_size_loop
  by (relation "measure (\<lambda>(comp', s). length (heap s))") (auto dest: pop_length [OF sym])

declare set_size_loop.simps [simp del]


section \<open>Properties of single operations\<close>

lemma nat_less_swo: "strict_weak_order nat_less"
  by (auto simp: strict_weak_order_def lt_def nat_less_def)

lemma heap_order_nth:
  "heap_order c xs \<Longrightarrow> 0 < i \<Longrightarrow> i < length xs \<Longrightarrow> \<not> lt c (xs ! i) (xs ! parent_pos i)"
  by (simp add: heap_order_def)

lemma heap_order_root_min:
  assumes swo: "strict_weak_order c" and ho: "heap_order c xs"
  shows "i < length xs \<Longrightarrow> \<not> lt c (xs ! i) (xs ! 0)"
proof (induction i rule: less_induct)
  case (less i)
  show ?case
  proof (cases "i = 0")
    case True
    then show ?thesis using swo by (simp add: strict_weak_order_def)
  next
    case False
    then have p: "parent_pos i < i" by (simp add: parent_pos_less)
    have "\<not> lt c (xs ! i) (xs ! parent_pos i)"
      using heap_order_nth [OF ho] False less.prems by simp
    moreover have "\<not> lt c (xs ! parent_pos i) (xs ! 0)"
      using less.IH [OF p] p less.prems by simp
    ultimately show ?thesis using swo_ntrans [OF swo] by blast
  qed
qed

text \<open>
  C4 (pushpop rejection law).  On a non-empty heap, for an item whose key is not
  in the index, when the comparator says that the top is not less than the item,
  \<^verbatim>\<open>pushpop\<close> returns the item and the whole state (vector, index map, capacity,
  caches) is the one before the call.
\<close>

theorem pushpop_rejection:
  assumes "heap s \<noteq> []" and "index_map s item = None"
    and "comp' (heap s ! 0) item = Some False"
  shows "pushpop comp' item s = (Inr item, s)"
  using assms by (simp add: pushpop_def)

theorem pushpop_rejection_witness:
  "heap heap_3_5 \<noteq> [] \<and> index_map heap_3_5 1 = None \<and>
   nat_less (heap heap_3_5 ! 0) 1 = Some False \<and>
   pushpop nat_less 1 heap_3_5 = (Inr 1, heap_3_5)"
proof -
  have h1: "heap heap_3_5 \<noteq> []" by (simp add: heap_3_5_def)
  have h2: "index_map heap_3_5 1 = None" by (simp add: heap_3_5_def)
  have h3: "nat_less (heap heap_3_5 ! 0) 1 = Some False" by (simp add: heap_3_5_def nat_less_def)
  from pushpop_rejection [of heap_3_5 1 nat_less, OF h1 h2 h3] h1 h2 h3 show ?thesis by simp
qed

text \<open>
  C10 (\<^verbatim>\<open>get_top\<close>).  On a non-empty heap in heap order, under a strict weak order
  that never fails, \<^verbatim>\<open>get_top\<close> returns the element at the root, no stored
  element is less than it, and the state is left as it was.
\<close>

theorem get_top_minimum:
  assumes "strict_weak_order comp'" and "heap s \<noteq> []" and "heap_order comp' (heap s)"
  shows "get_top s = (Inr (heap s ! 0), s) \<and> (\<forall>y\<in>set (heap s). \<not> lt comp' y (heap s ! 0))"
proof -
  have "get_top s = (Inr (heap s ! 0), s)"
    using assms(2) by (simp add: get_top_def throw_on_empty_def)
  moreover have "\<not> lt comp' y (heap s ! 0)" if "y \<in> set (heap s)" for y
    using that heap_order_root_min [OF assms(1) assms(3)] by (auto simp: in_set_conv_nth)
  ultimately show ?thesis by blast
qed

theorem get_top_minimum_witness:
  "strict_weak_order nat_less \<and> heap heap_3_5 \<noteq> [] \<and> heap_order nat_less (heap heap_3_5) \<and>
   get_top heap_3_5 = (Inr 3, heap_3_5) \<and> \<not> lt nat_less 3 3 \<and> \<not> lt nat_less 5 3"
proof -
  have h2: "heap heap_3_5 \<noteq> []" by (simp add: heap_3_5_def)
  have h3: "heap_order nat_less (heap heap_3_5)"
    by (simp add: heap_3_5_def heap_order_def lt_def nat_less_def parent_pos_def)
  have e: "heap heap_3_5 ! 0 = 3" "set (heap heap_3_5) = {3, 5}" by (auto simp: heap_3_5_def)
  from get_top_minimum [OF nat_less_swo h2 h3] nat_less_swo h2 h3 e show ?thesis by simp
qed


subsection \<open>The scan of \<^verbatim>\<open>get_max\<close>\<close>

lemma swo_irrefl: "strict_weak_order c \<Longrightarrow> \<not> lt c a a"
  unfolding strict_weak_order_def by blast

lemma swo_total: "strict_weak_order c \<Longrightarrow> \<exists>b. c x y = Some b"
proof -
  assume "strict_weak_order c"
  then have "c x y \<noteq> None" unfolding strict_weak_order_def by blast
  then show ?thesis by blast
qed

lemma get_max_loop_max:
  assumes swo: "strict_weak_order c"
  shows "\<exists>m. get_max_loop c xs i r = Inr m \<and> \<not> lt c m r \<and>
           (\<forall>j. i \<le> j \<and> j < length xs \<longrightarrow> \<not> lt c m (xs ! j)) \<and>
           (m = r \<or> (\<exists>j. i \<le> j \<and> j < length xs \<and> m = xs ! j))"
proof (induction "length xs - i" arbitrary: i r rule: less_induct)
  case less
  show ?case
  proof (cases "i < length xs")
    case False
    then have "get_max_loop c xs i r = Inr r" by (subst get_max_loop.simps) simp
    with False swo_irrefl [OF swo, of r] show ?thesis by auto
  next
    case True
    then have dec: "length xs - (i + 1) < length xs - i" by simp
    from swo_total [OF swo] obtain b where b: "c r (xs ! i) = Some b" by blast
    show ?thesis
    proof (cases b)
      case True
      with b \<open>i < length xs\<close> have eq: "get_max_loop c xs i r = get_max_loop c xs (i + 1) (xs ! i)"
        by (subst get_max_loop.simps) simp
      from less.hyps [OF dec, of "xs ! i"] obtain m where
        m: "get_max_loop c xs (i + 1) (xs ! i) = Inr m" "\<not> lt c m (xs ! i)"
           "\<forall>j. i + 1 \<le> j \<and> j < length xs \<longrightarrow> \<not> lt c m (xs ! j)"
           "m = xs ! i \<or> (\<exists>j. i + 1 \<le> j \<and> j < length xs \<and> m = xs ! j)" by blast
      have "lt c r (xs ! i)" using b True by (simp add: lt_def)
      then have "\<not> lt c m r" using m(2) swo_trans [OF swo] by blast
      moreover have "\<not> lt c m (xs ! j)" if "i \<le> j" "j < length xs" for j
        using that m(2) m(3) by (cases "j = i") auto
      moreover have "\<exists>j. i \<le> j \<and> j < length xs \<and> m = xs ! j"
      proof -
        from m(4) consider "m = xs ! i" | j where "i + 1 \<le> j" "j < length xs" "m = xs ! j"
          by blast
        then show ?thesis
        proof cases
          case 1
          then show ?thesis using \<open>i < length xs\<close> by (intro exI [of _ i]) simp
        next
          case 2
          then show ?thesis by (intro exI [of _ j]) simp
        qed
      qed
      ultimately show ?thesis using eq m(1) by auto
    next
      case False
      with b \<open>i < length xs\<close> have eq: "get_max_loop c xs i r = get_max_loop c xs (i + 1) r"
        by (subst get_max_loop.simps) simp
      from less.hyps [OF dec, of r] obtain m where
        m: "get_max_loop c xs (i + 1) r = Inr m" "\<not> lt c m r"
           "\<forall>j. i + 1 \<le> j \<and> j < length xs \<longrightarrow> \<not> lt c m (xs ! j)"
           "m = r \<or> (\<exists>j. i + 1 \<le> j \<and> j < length xs \<and> m = xs ! j)" by blast
      have "\<not> lt c r (xs ! i)" using b False by (simp add: lt_def)
      then have mi: "\<not> lt c m (xs ! i)" using m(2) swo_ntrans [OF swo] by blast
      have "\<not> lt c m (xs ! j)" if "i \<le> j" "j < length xs" for j
        using that mi m(3) by (cases "j = i") auto
      moreover have "m = r \<or> (\<exists>j. i \<le> j \<and> j < length xs \<and> m = xs ! j)"
      proof -
        from m(4) consider "m = r" | j where "i + 1 \<le> j" "j < length xs" "m = xs ! j"
          by blast
        then show ?thesis
        proof cases
          case 1
          then show ?thesis by simp
        next
          case 2
          then have "i \<le> j \<and> j < length xs \<and> m = xs ! j" by simp
          then show ?thesis by blast
        qed
      qed
      ultimately show ?thesis using eq m(1) m(2) by auto
    qed
  qed
qed

lemma leaves_bound_all:
  assumes swo: "strict_weak_order c" and ho: "heap_order c xs"
    and leaves: "\<And>j. length xs div 2 \<le> j \<Longrightarrow> j < length xs \<Longrightarrow> \<not> lt c m (xs ! j)"
  shows "i < length xs \<Longrightarrow> \<not> lt c m (xs ! i)"
proof (induction "length xs - i" arbitrary: i rule: less_induct)
  case less
  show ?case
  proof (cases "length xs div 2 \<le> i")
    case True
    then show ?thesis using leaves less.prems by simp
  next
    case False
    then have k: "2 * i + 1 < length xs" by arith
    have "\<not> lt c (xs ! (2 * i + 1)) (xs ! parent_pos (2 * i + 1))"
      using heap_order_nth [OF ho, of "2 * i + 1"] k by simp
    then have "\<not> lt c (xs ! (2 * i + 1)) (xs ! i)" by (simp add: parent_pos_def)
    moreover have "\<not> lt c m (xs ! (2 * i + 1))"
      using less.hyps [of "2 * i + 1"] k less.prems by simp
    ultimately show ?thesis using swo_ntrans [OF swo] by blast
  qed
qed

text \<open>
  C6 (leaf range of the max scan), as amended.  On a non-empty heap in heap order,
  under a strict weak order that never fails, a maximum is at some position in
  \<open>\<lfloor>length/2\<rfloor> \<dots> length - 1\<close>, and \<^verbatim>\<open>get_max\<close> without a cached value, which
  scans exactly these positions, returns it: no stored element is greater.
\<close>

theorem get_max_scans_floor_half:
  assumes swo: "strict_weak_order comp'" and ne: "heap s \<noteq> []"
    and ho: "heap_order comp' (heap s)" and nc: "\<not> max_item_set s"
  shows "\<exists>i. length (heap s) div 2 \<le> i \<and> i < length (heap s) \<and>
             fst (get_max comp' s) = Inr (heap s ! i) \<and>
             (\<forall>y\<in>set (heap s). \<not> lt comp' (heap s ! i) y)"
proof -
  define n where "n = length (heap s)"
  have n: "0 < n" "n div 2 < n" using ne by (auto simp: n_def)
  from get_max_loop_max [OF swo, of "heap s" "n div 2 + 1" "heap s ! (n div 2)"]
  obtain m where m: "get_max_loop comp' (heap s) (n div 2 + 1) (heap s ! (n div 2)) = Inr m"
    "\<not> lt comp' m (heap s ! (n div 2))"
    "\<forall>j. n div 2 + 1 \<le> j \<and> j < n \<longrightarrow> \<not> lt comp' m (heap s ! j)"
    "m = heap s ! (n div 2) \<or> (\<exists>j. n div 2 + 1 \<le> j \<and> j < n \<and> m = heap s ! j)"
    unfolding n_def by blast
  have "\<exists>i. n div 2 \<le> i \<and> i < n \<and> m = heap s ! i"
  proof -
    from m(4) consider "m = heap s ! (n div 2)"
      | j where "n div 2 + 1 \<le> j" "j < n" "m = heap s ! j" by blast
    then show ?thesis
    proof cases
      case 1
      then show ?thesis using n by (intro exI [of _ "n div 2"]) simp
    next
      case 2
      then show ?thesis by (intro exI [of _ j]) simp
    qed
  qed
  then obtain i where i: "n div 2 \<le> i" "i < n" "m = heap s ! i" by blast
  have leaves: "\<not> lt comp' m (heap s ! j)" if "n div 2 \<le> j" "j < n" for j
    using that m(2) m(3) by (cases "j = n div 2") auto
  have all: "\<not> lt comp' m y" if "y \<in> set (heap s)" for y
  proof -
    from that obtain j where j: "j < length (heap s)" "y = heap s ! j"
      by (auto simp: in_set_conv_nth)
    have "\<not> lt comp' m (heap s ! j)"
    proof (rule leaves_bound_all [OF swo ho _ j(1)])
      fix k assume "length (heap s) div 2 \<le> k" "k < length (heap s)"
      then show "\<not> lt comp' m (heap s ! k)" using leaves [of k] by (simp add: n_def)
    qed
    with j show ?thesis by simp
  qed
  have "fst (get_max comp' s) = Inr m"
    using ne nc m(1) by (simp add: get_max_def throw_on_empty_def n_def)
  with i all have "length (heap s) div 2 \<le> i \<and> i < length (heap s) \<and>
             fst (get_max comp' s) = Inr (heap s ! i) \<and>
             (\<forall>y\<in>set (heap s). \<not> lt comp' (heap s ! i) y)"
    by (simp add: n_def)
  then show ?thesis by (rule exI)
qed

theorem get_max_scans_floor_half_witness:
  "strict_weak_order nat_less \<and> heap heap_1_3_2 \<noteq> [] \<and>
   heap_order nat_less (heap heap_1_3_2) \<and> \<not> max_item_set heap_1_3_2 \<and>
   (\<exists>i. length (heap heap_1_3_2) div 2 \<le> i \<and> i < length (heap heap_1_3_2) \<and>
        fst (get_max nat_less heap_1_3_2) = Inr (heap heap_1_3_2 ! i) \<and>
        \<not> lt nat_less (heap heap_1_3_2 ! i) 3)"
proof -
  have h2: "heap heap_1_3_2 \<noteq> []" by (simp add: heap_1_3_2_def)
  have h3: "heap_order nat_less (heap heap_1_3_2)" by code_simp
  have h4: "\<not> max_item_set heap_1_3_2" by (simp add: heap_1_3_2_def)
  have e: "3 \<in> set (heap heap_1_3_2)" by (simp add: heap_1_3_2_def)
  from get_max_scans_floor_half [OF nat_less_swo h2 h3 h4] e
  have "\<exists>i. length (heap heap_1_3_2) div 2 \<le> i \<and> i < length (heap heap_1_3_2) \<and>
        fst (get_max nat_less heap_1_3_2) = Inr (heap heap_1_3_2 ! i) \<and>
        \<not> lt nat_less (heap heap_1_3_2 ! i) 3"
    by blast
  with nat_less_swo h2 h3 h4 show ?thesis by blast
qed

text \<open>The claim as stated fails on the heap \<open>[1, 3, 2]\<close>: it is in heap order, its
  maximum 3 is at position 1, below \<open>\<lceil>3/2\<rceil> = 2\<close>, and a scan of the positions
  \<open>\<lceil>3/2\<rceil> \<dots> 2\<close> yields 2, which is less than 3; \<^verbatim>\<open>get_max\<close> itself
  returns 3.\<close>

theorem ceil_half_scan_counterexample:
  "heap_order nat_less (heap heap_1_3_2) \<and> heap heap_1_3_2 ! 1 = 3 \<and>
   \<not> (length (heap heap_1_3_2) + 1) div 2 \<le> 1 \<and>
   ceil_half_scan_max nat_less (heap heap_1_3_2) = Inr 2 \<and> lt nat_less 2 3 \<and>
   fst (get_max nat_less heap_1_3_2) = Inr 3"
  by code_simp


section \<open>Heap order is kept by every operation that returns\<close>

lemma child_choice_smaller:
  assumes swo: "strict_weak_order c" and k: "child_choice c (length xs) p xs = Inr k"
    and j: "0 < j" "j < length xs" "parent_pos j = p" "j \<noteq> k"
  shows "\<not> lt c (xs ! j) (xs ! k)"
proof -
  from j have jj: "j = 2 * p + 1 \<or> j = 2 * p + 2" by (simp add: parent_pos_eq_iff)
  show ?thesis
  proof (cases "2 * p + 1 + 1 < length xs")
    case False
    with k have "k = 2 * p + 1" by (simp add: child_choice_def)
    with jj j False show ?thesis by auto
  next
    case True
    with k obtain b where b: "c (xs ! (2 * p + 1)) (xs ! (2 * p + 1 + 1)) = Some b"
      and kb: "k = 2 * p + 1 + (if b then 0 else 1)"
      by (auto simp: child_choice_def split: option.splits)
    show ?thesis
    proof (cases b)
      case True
      with kb jj j have "k = 2 * p + 1" "j = 2 * p + 2" by auto
      moreover have "lt c (xs ! (2 * p + 1)) (xs ! (2 * p + 2))" using b True by (simp add: lt_def)
      ultimately show ?thesis using swo_asym [OF swo] by blast
    next
      case False
      with kb jj j have "k = 2 * p + 2" "j = 2 * p + 1" by auto
      moreover have "\<not> lt c (xs ! (2 * p + 1)) (xs ! (2 * p + 2))" using b False by (simp add: lt_def)
      ultimately show ?thesis by simp
    qed
  qed
qed

lemma siftdown_loop_heap:
  fixes c :: "'a compare"
  assumes swo: "strict_weak_order c" and run: "siftdown_loop c sp pos s = (Inr u, s')"
    and inv: "siftdown_inv c sp pos (heap s)"
  shows "sift_post c sp (heap s')"
proof -
  have "\<exists>p. siftdown_inv c sp p (heap s') \<and>
            (p \<le> sp \<or> \<not> lt c (heap s' ! p) (heap s' ! parent_pos p))"
  proof (rule siftdown_loop_rule [OF run, where I = "\<lambda>p t. siftdown_inv c sp p (heap t)"])
    show "siftdown_inv c sp pos (heap s)" by (rule inv)
  next
    fix p and t :: "'a EHeapQ"
    assume "siftdown_inv c sp p (heap t)" "sp < p" "lt c (heap t ! p) (heap t ! parent_pos p)"
    from siftdown_inv_step [OF swo this]
    show "siftdown_inv c sp (parent_pos p) (heap (swap_at (parent_pos p) p t))" by simp
  qed
  then show ?thesis using siftdown_inv_post [OF swo] by blast
qed

lemma siftup_loop_heap:
  fixes c :: "'a compare"
  assumes swo: "strict_weak_order c"
    and run: "siftup_loop c (length (heap s)) (length (heap s) div 2) pos s = (Inr q, s')"
    and inv: "siftup_inv c sp pos (heap s)"
  shows "siftdown_inv c sp q (heap s')"
proof -
  define n where "n = length (heap s)"
  have "(siftup_inv c sp q (heap s') \<and> length (heap s') = n) \<and> \<not> q < n div 2"
  proof (rule siftup_loop_rule [OF run [folded n_def],
           where I = "\<lambda>p t. siftup_inv c sp p (heap t) \<and> length (heap t) = n"])
    show "siftup_inv c sp pos (heap s) \<and> length (heap s) = n" using inv by (simp add: n_def)
  next
    fix p k and t :: "'a EHeapQ"
    assume I: "siftup_inv c sp p (heap t) \<and> length (heap t) = n" and p: "p < n div 2"
      and k: "child_choice c n p (heap t) = Inr k"
    from I have len: "length (heap t) = n" by simp
    have k1: "k = 2 * p + 1 \<or> k = 2 * p + 2" using child_choice_range [OF k] .
    have k2: "k < length (heap t)" using child_choice_less [OF k p] len by simp
    have "siftup_inv c sp k ((heap t)[k := heap t ! p, p := heap t ! k])"
    proof (rule siftup_inv_step [OF swo _ k1 k2])
      show "siftup_inv c sp p (heap t)" using I by simp
    next
      fix j assume "0 < j" "j < length (heap t)" "parent_pos j = p" "j \<noteq> k"
      then show "\<not> lt c (heap t ! j) (heap t ! k)"
        using child_choice_smaller [OF swo k [folded len]] by blast
    qed
    then show "siftup_inv c sp k (heap (swap_at k p t)) \<and> length (heap (swap_at k p t)) = n"
      using len by simp
  qed
  then show ?thesis using siftup_inv_leaf [of c sp q "heap s'"] by simp
qed

lemma siftdown_heap:
  assumes swo: "strict_weak_order c" and run: "siftdown c sp pos s = (Inr u, s')"
    and inv: "siftdown_inv c sp pos (heap s)"
  shows "sift_post c sp (heap s')"
proof -
  from inv have "pos < length (heap s)" by (simp add: siftdown_inv_def)
  with run have "siftdown_loop c sp pos s = (Inr u, s')"
    by (auto simp: siftdown_def split: if_splits)
  from siftdown_loop_heap [OF swo this inv] show ?thesis .
qed

lemma siftup_heap:
  assumes swo: "strict_weak_order c" and run: "siftup c pos s = (Inr u, s')"
    and inv: "siftup_inv c pos pos (heap s)"
  shows "sift_post c pos (heap s')"
proof -
  obtain r s1 where l: "siftup_loop c (length (heap s)) (length (heap s) div 2) pos s = (r, s1)"
    by (cases "siftup_loop c (length (heap s)) (length (heap s) div 2) pos s")
  with run obtain q where r: "r = Inr q" and d: "siftdown c pos q s1 = (Inr u, s')"
    by (cases r) (auto simp: siftup_def Let_def)
  from siftup_loop_heap [OF swo l [unfolded r] inv] have "siftdown_inv c pos q (heap s1)" .
  from siftdown_heap [OF swo d this] show ?thesis .
qed

lemma desc_0: "desc 0 p"
proof (induction p rule: less_induct)
  case (less p)
  show ?case
  proof (cases "p = 0")
    case True
    then show ?thesis by (simp add: desc_refl)
  next
    case False
    then have "parent_pos p < p" by (simp add: parent_pos_less)
    then have d: "desc 0 (parent_pos p)" by (rule less.IH)
    from False have "p = 2 * parent_pos p + 1 \<or> p = 2 * parent_pos p + 2"
      using parent_pos_eq_iff [of p "parent_pos p"] by simp
    with d show ?thesis using desc_left [of 0 "parent_pos p"] desc_right [of 0 "parent_pos p"]
      by auto
  qed
qed

lemma heap_order_iff:
  "heap_order c xs \<longleftrightarrow> (\<forall>i. 0 < i \<and> i < length xs \<longrightarrow> \<not> lt c (xs ! i) (xs ! parent_pos i))"
  by (auto simp: heap_order_def)

lemma sift_post_root: "sift_post c 0 xs \<Longrightarrow> heap_order c xs"
  by (simp add: sift_post_def heap_order_iff)

lemma siftup_inv_root:
  assumes "xs \<noteq> []"
    and "\<And>i. 0 < i \<Longrightarrow> i < length xs \<Longrightarrow> parent_pos i \<noteq> 0 \<Longrightarrow> \<not> lt c (xs ! i) (xs ! parent_pos i)"
  shows "siftup_inv c 0 0 xs"
  using assms by (simp add: siftup_inv_def desc_refl)

text \<open>Sifting from the root after the root has been overwritten.\<close>

lemma siftup_root_heap_order:
  assumes swo: "strict_weak_order c" and ho: "heap_order c ys"
    and run: "siftup c 0 s = (Inr u, s')"
    and len: "length (heap s) \<le> length ys"
    and same: "\<And>i. 0 < i \<Longrightarrow> i < length (heap s) \<Longrightarrow> heap s ! i = ys ! i"
  shows "heap_order c (heap s')"
proof (cases "heap s = []")
  case True
  then have "siftup_loop c (length (heap s)) (length (heap s) div 2) 0 s = (Inr 0, s)"
    by (simp add: siftup_loop_stop)
  with run True have "s' = s" by (simp add: siftup_def siftdown_def)
  with True show ?thesis by (simp add: heap_order_def)
next
  case False
  have "siftup_inv c 0 0 (heap s)"
  proof (rule siftup_inv_root [OF False])
    fix i assume i: "0 < i" "i < length (heap s)" "parent_pos i \<noteq> 0"
    then have "parent_pos i < i" by (simp add: parent_pos_less)
    with i same [of i] same [of "parent_pos i"] len heap_order_nth [OF ho, of i]
    show "\<not> lt c (heap s ! i) (heap s ! parent_pos i)" by simp
  qed
  from siftup_heap [OF swo run this] show ?thesis by (rule sift_post_root)
qed


lemma index_insert_fields [simp]:
  "heap (index_insert k v s) = heap s" "size' (index_insert k v s) = size' s"
  by (simp_all add: index_insert_def split: option.splits)

lemma set_item_fields [simp]:
  "heap (set_last_item x s) = heap s" "heap (set_max_item x s) = heap s"
  "index_map (set_last_item x s) = index_map s" "index_map (set_max_item x s) = index_map s"
  "size' (set_last_item x s) = size' s" "size' (set_max_item x s) = size' s"
  by (simp_all add: set_last_item_def set_max_item_def)

lemma maybe_adjust_max_fields:
  "maybe_adjust_max c x s = (r, s') \<Longrightarrow>
   heap s' = heap s \<and> index_map s' = index_map s \<and> size' s' = size' s"
  by (auto simp: maybe_adjust_max_def split: if_splits option.splits bool.splits)

lemma pushpop_Inr:
  assumes "pushpop c item s = (Inr r, s')"
  shows "(s' = s \<and> r = item) \<or>
         (heap s \<noteq> [] \<and> r = heap s ! 0 \<and> index_map s item = None \<and>
          c (heap s ! 0) item = Some True \<and>
          (\<exists>u s4. siftup c 0 (index_erase (heap s ! 0)
                       (index_insert item 0 (s\<lparr>heap := (heap s)[0 := item]\<rparr>))) = (Inr u, s4) \<and>
                  heap s' = heap s4 \<and> index_map s' = index_map s4 \<and> size' s' = size' s4))"
  using assms
  by (auto simp: pushpop_def Let_def
           split: if_splits option.splits bool.splits prod.splits sum.splits
           dest!: maybe_adjust_max_fields)

lemma pushpop_heap_order:
  assumes swo: "strict_weak_order c" and ho: "heap_order c (heap s)"
    and run: "pushpop c item s = (Inr r, s')"
  shows "heap_order c (heap s')"
proof -
  from pushpop_Inr [OF run] consider "s' = s"
    | u s4 where "siftup c 0 (index_erase (heap s ! 0)
                       (index_insert item 0 (s\<lparr>heap := (heap s)[0 := item]\<rparr>))) = (Inr u, s4)"
        "heap s' = heap s4"
    by blast
  then show ?thesis
  proof cases
    case 1
    with ho show ?thesis by simp
  next
    case 2
    have "heap_order c (heap s4)"
      by (rule siftup_root_heap_order [OF swo ho 2(1)]) simp_all
    with 2(2) show ?thesis by simp
  qed
qed

lemma replace_Inr:
  assumes "replace c item s = (Inr r, s')"
  shows "heap s \<noteq> [] \<and> r = heap s ! 0 \<and> index_map s item = None \<and>
         (\<exists>u s4. siftup c 0 (index_insert item 0
                      ((index_erase (heap s ! 0) s)\<lparr>heap := (heap s)[0 := item]\<rparr>)) = (Inr u, s4) \<and>
                 heap s' = heap s4 \<and> index_map s' = index_map s4 \<and> size' s' = size' s4)"
  using assms
  by (auto simp: replace_def throw_on_empty_def Let_def
           split: if_splits option.splits bool.splits prod.splits sum.splits
           dest!: maybe_adjust_max_fields)

lemma replace_heap_order:
  assumes swo: "strict_weak_order c" and ho: "heap_order c (heap s)"
    and run: "replace c item s = (Inr r, s')"
  shows "heap_order c (heap s')"
proof -
  from replace_Inr [OF run] obtain u s4 where
    1: "siftup c 0 (index_insert item 0
          ((index_erase (heap s ! 0) s)\<lparr>heap := (heap s)[0 := item]\<rparr>)) = (Inr u, s4)"
    and 2: "heap s' = heap s4"
    by blast
  have "heap_order c (heap s4)"
    by (rule siftup_root_heap_order [OF swo ho 1]) simp_all
  with 2 show ?thesis by simp
qed

lemma pop_heap_order:
  assumes swo: "strict_weak_order c" and ho: "heap_order c (heap s)"
    and run: "pop c s = (Inr r, s')"
  shows "heap_order c (heap s')"
proof -
  from pop_Inr [OF run] obtain s2 s5 u where ne: "heap s \<noteq> []"
    and p2: "if length (heap s) > 1
            then index_at_put (last (heap s)) 0 (s\<lparr>heap := (heap s)[0 := last (heap s)]\<rparr>)
                   = (Inr (), s2)
            else s2 = s"
    and su: "siftup c 0 (index_erase r (s2\<lparr>heap := butlast (heap s2)\<rparr>)) = (Inr u, s5)"
    and s': "s' = maybe_del_max_item r (maybe_del_last_item r s5)"
    by blast
  have h2: "heap s2 = (if length (heap s) > 1 then (heap s)[0 := last (heap s)] else heap s)"
    using p2 by (auto split: if_splits dest: index_at_put_fields)
  have "heap_order c (heap s5)"
  proof (rule siftup_root_heap_order [OF swo ho su])
    show "length (heap (index_erase r (s2\<lparr>heap := butlast (heap s2)\<rparr>))) \<le> length (heap s)"
      using h2 by simp
  next
    fix i assume "0 < i" "i < length (heap (index_erase r (s2\<lparr>heap := butlast (heap s2)\<rparr>)))"
    then show "heap (index_erase r (s2\<lparr>heap := butlast (heap s2)\<rparr>)) ! i = heap s ! i"
      using h2 by (auto simp: nth_butlast split: if_splits)
  qed
  with s' show ?thesis by simp
qed


lemma push_Inr:
  assumes "push c item s = (Inr r, s')"
  shows "index_map s item = None \<and>
         ((length (heap s) = size' s \<and> (\<exists>r'. pushpop c item s = (Inr r', s'))) \<or>
          (length (heap s) \<noteq> size' s \<and>
           (\<exists>u s3. siftdown c 0 (length (heap s))
                      ((index_insert item (length (heap s)) s)\<lparr>heap := heap s @ [item]\<rparr>)
                      = (Inr u, s3) \<and>
                   heap s' = heap s3 \<and> index_map s' = index_map s3 \<and> size' s' = size' s3)))"
  using assms
  by (auto simp: push_def Let_def
           split: if_splits option.splits bool.splits prod.splits sum.splits
           dest!: maybe_adjust_max_fields)

lemma siftdown_inv_appended:
  assumes ho: "heap_order c ys"
  shows "siftdown_inv c 0 (length ys) (ys @ [x])"
proof -
  have "\<not> lt c ((ys @ [x]) ! i) ((ys @ [x]) ! parent_pos i)"
    if "0 < i" "i < length (ys @ [x])" "i \<noteq> length ys" for i
  proof -
    from that have "i < length ys" "parent_pos i < length ys"
      using parent_pos_less [of i] by auto
    then show ?thesis using heap_order_nth [OF ho, of i] that by (simp add: nth_append)
  qed
  moreover have "\<not> (0 < k \<and> k < length (ys @ [x]) \<and> parent_pos k = length ys)" for k
    unfolding parent_pos_def by auto
  ultimately show ?thesis
    unfolding siftdown_inv_def using desc_0 [of "length ys"] by auto
qed

lemma push_heap_order:
  assumes swo: "strict_weak_order c" and ho: "heap_order c (heap s)"
    and run: "push c item s = (Inr r, s')"
  shows "heap_order c (heap s')"
proof -
  from push_Inr [OF run] consider r' where "pushpop c item s = (Inr r', s')"
    | u s3 where "siftdown c 0 (length (heap s))
                      ((index_insert item (length (heap s)) s)\<lparr>heap := heap s @ [item]\<rparr>)
                      = (Inr u, s3)" "heap s' = heap s3"
    by blast
  then show ?thesis
  proof cases
    case 1
    from pushpop_heap_order [OF swo ho 1] show ?thesis .
  next
    case 2
    have "sift_post c 0 (heap s3)"
      by (rule siftdown_heap [OF swo 2(1)]) (simp add: siftdown_inv_appended [OF ho])
    with 2(2) show ?thesis by (simp add: sift_post_root)
  qed
qed

lemma heap_order_butlast: "heap_order c ys \<Longrightarrow> heap_order c (butlast ys)"
proof -
  assume ho: "heap_order c ys"
  have "\<not> lt c (butlast ys ! i) (butlast ys ! parent_pos i)"
    if "0 < i" "i < length (butlast ys)" for i
  proof -
    from that have "i < length ys" "parent_pos i < length (butlast ys)"
      using parent_pos_less [of i] by auto
    then show ?thesis using heap_order_nth [OF ho, of i] that by (simp add: nth_butlast)
  qed
  then show ?thesis by (simp add: heap_order_iff)
qed

text \<open>Removal at a position: the last element is copied into slot \<open>idx\<close>, the vector
  is truncated, and the slot is repaired by \<^verbatim>\<open>siftup(idx); siftdown(0, idx)\<close>.\<close>

lemma remove_at_heap_order:
  assumes swo: "strict_weak_order c" and ho: "heap_order c ys"
    and idx: "idx < length ys - 1"
    and hs: "heap s = butlast (ys[idx := ys ! (length ys - 1)])"
    and up: "siftup c idx s = (Inr u, s4)" and down: "siftdown c 0 idx s4 = (Inr u', s5)"
  shows "heap_order c (heap s5)"
proof -
  define xs where "xs = heap s"
  have len: "length xs = length ys - 1" by (simp add: xs_def hs)
  have nth: "xs ! i = ys ! i" if "i < length xs" "i \<noteq> idx" for i
    using that len by (simp add: xs_def hs nth_butlast)
  have ok: "\<not> lt c (ys ! i) (ys ! parent_pos i)" if "0 < i" "i < length xs" for i
    using heap_order_nth [OF ho, of i] that len by simp
  have A: "\<not> lt c (xs ! i) (xs ! parent_pos i)"
    if "0 < i" "i < length xs" "i \<noteq> idx" "parent_pos i \<noteq> idx" for i
  proof -
    have "parent_pos i < length xs" using that parent_pos_less [of i] by simp
    then show ?thesis using nth [of i] nth [of "parent_pos i"] ok [of i] that by simp
  qed
  have C: "\<not> lt c (xs ! k) (xs ! parent_pos idx)"
    if "0 < idx" "k < length xs" "0 < k" "parent_pos k = idx" for k
  proof -
    have p: "parent_pos idx < idx" "idx < k" using that parent_pos_less [of idx] parent_pos_less [of k]
      by auto
    have "\<not> lt c (ys ! k) (ys ! idx)" using ok [of k] that by simp
    moreover have "\<not> lt c (ys ! idx) (ys ! parent_pos idx)" using ok [of idx] that idx len by simp
    ultimately have "\<not> lt c (ys ! k) (ys ! parent_pos idx)" using swo_ntrans [OF swo] by blast
    then show ?thesis using nth [of k] nth [of "parent_pos idx"] that p idx len by simp
  qed
  have "siftup_inv c idx idx xs"
    unfolding siftup_inv_def using A C idx len by (auto simp: desc_refl)
  from siftup_heap [OF swo up this [unfolded xs_def]] have post: "sift_post c idx (heap s4)" .
  have "same_items s s4" using siftup_same_items [OF up] idx len by (simp add: xs_def)
  then have len4: "length (heap s4) = length xs" by (simp add: same_items_def xs_def)
  have "siftdown_inv c 0 idx (heap s4)"
    using post idx len len4 unfolding siftdown_inv_def sift_post_def
    by (auto simp: desc_0)
  from siftdown_heap [OF swo down this] show ?thesis by (rule sift_post_root)
qed


lemma remove_tail:
  "index_map s item = Some idx \<Longrightarrow> heap s \<noteq> [] \<Longrightarrow>
   item = heap s ! (length (heap s) - 1) \<Longrightarrow>
   remove c item s =
     (Inr (), maybe_del_last_item item (maybe_del_max_item item
                (index_erase item (s\<lparr>heap := butlast (heap s)\<rparr>))))"
  by (simp add: remove_def Let_def)

lemma remove_inner:
  "index_map s item = Some idx \<Longrightarrow>
   \<not> (heap s \<noteq> [] \<and> item = heap s ! (length (heap s) - 1)) \<Longrightarrow>
   remove c item s =
     (if idx \<ge> length (heap s) then (Inl UndefinedBehaviour, s)
      else case (if idx < length (heap s) - 1 then
                   (case siftup c idx (index_erase item
                      (s\<lparr>heap := butlast ((heap s)[idx := heap s ! (length (heap s) - 1)])\<rparr>)) of
                      (Inl e, s4) \<Rightarrow> (Inl e, s4)
                    | (Inr _, s4) \<Rightarrow> siftdown c 0 idx s4)
                 else (Inr (), index_erase item
                      (s\<lparr>heap := butlast ((heap s)[idx := heap s ! (length (heap s) - 1)])\<rparr>))) of
             (Inl e, s5) \<Rightarrow> (Inl e, s5)
           | (Inr _, s5) \<Rightarrow> (Inr (), maybe_del_last_item item (maybe_del_max_item item s5)))"
  by (auto simp: remove_def Let_def)

lemma remove_Inr:
  assumes "remove c item s = (Inr r, s')"
  shows "\<exists>idx. index_map s item = Some idx \<and>
           ((heap s \<noteq> [] \<and> item = heap s ! (length (heap s) - 1) \<and>
             heap s' = butlast (heap s) \<and> index_map s' = (index_map s)(item := None)) \<or>
            (\<not> (heap s \<noteq> [] \<and> item = heap s ! (length (heap s) - 1)) \<and>
             idx < length (heap s) \<and>
             (if idx < length (heap s) - 1
              then \<exists>u s4 u' s5.
                     siftup c idx (index_erase item
                        (s\<lparr>heap := butlast ((heap s)[idx := heap s ! (length (heap s) - 1)])\<rparr>))
                        = (Inr u, s4) \<and>
                     siftdown c 0 idx s4 = (Inr u', s5) \<and>
                     heap s' = heap s5 \<and> index_map s' = index_map s5
              else heap s' = butlast ((heap s)[idx := heap s ! (length (heap s) - 1)]) \<and>
                   index_map s' = (index_map s)(item := None))))"
proof -
  from assms obtain idx where ix: "index_map s item = Some idx"
    by (cases "index_map s item") (simp_all add: remove_def Let_def)
  define s3 where "s3 = index_erase item
                        (s\<lparr>heap := butlast ((heap s)[idx := heap s ! (length (heap s) - 1)])\<rparr>)"
  show ?thesis
  proof (cases "heap s \<noteq> [] \<and> item = heap s ! (length (heap s) - 1)")
    case True
    with assms remove_tail [OF ix, of c]
    have "s' = maybe_del_last_item item (maybe_del_max_item item
                               (index_erase item (s\<lparr>heap := butlast (heap s)\<rparr>)))"
      by simp
    then have "heap s' = butlast (heap s) \<and> index_map s' = (index_map s)(item := None)"
      by simp
    with ix True show ?thesis by blast
  next
    case False
    note inner = remove_inner [OF ix False, of c, folded s3_def]
    from assms inner have idx: "idx < length (heap s)"
      by (cases "idx < length (heap s)") simp_all
    show ?thesis
    proof (cases "idx < length (heap s) - 1")
      case True
      obtain r4 s4 where up: "siftup c idx s3 = (r4, s4)" by (cases "siftup c idx s3")
      obtain r5 s5 where down: "siftdown c 0 idx s4 = (r5, s5)" by (cases "siftdown c 0 idx s4")
      from assms inner idx True up have "\<exists>u. r4 = Inr u"
        by (cases r4) simp_all
      then obtain u where r4: "r4 = Inr u" by blast
      from assms inner idx True up r4 down have "\<exists>u'. r5 = Inr u'"
        by (cases r5) simp_all
      then obtain u' where r5: "r5 = Inr u'" by blast
      from assms inner idx True up r4 down r5
      have "s' = maybe_del_last_item item (maybe_del_max_item item s5)"
        by simp
      then have "heap s' = heap s5 \<and> index_map s' = index_map s5" by simp
      with up down r4 r5 have "\<exists>u s4 u' s5. siftup c idx s3 = (Inr u, s4) \<and>
          siftdown c 0 idx s4 = (Inr u', s5) \<and> heap s' = heap s5 \<and> index_map s' = index_map s5"
        by blast
      with ix False idx True show ?thesis unfolding s3_def by simp
    next
      case notless: False
      with assms inner idx
      have "s' = maybe_del_last_item item (maybe_del_max_item item s3)"
        by simp
      then have "heap s' = butlast ((heap s)[idx := heap s ! (length (heap s) - 1)]) \<and>
                 index_map s' = (index_map s)(item := None)"
        by (simp add: s3_def)
      with ix False idx notless show ?thesis by simp
    qed
  qed
qed

lemma remove_heap_order:
  assumes swo: "strict_weak_order c" and ho: "heap_order c (heap s)"
    and run: "remove c item s = (Inr r, s')"
  shows "heap_order c (heap s')"
proof -
  from remove_Inr [OF run] obtain idx where
    cases: "(heap s' = butlast (heap s)) \<or>
            (idx < length (heap s) \<and>
             (if idx < length (heap s) - 1
              then \<exists>u s4 u' s5.
                     siftup c idx (index_erase item
                        (s\<lparr>heap := butlast ((heap s)[idx := heap s ! (length (heap s) - 1)])\<rparr>))
                        = (Inr u, s4) \<and>
                     siftdown c 0 idx s4 = (Inr u', s5) \<and>
                     heap s' = heap s5 \<and> index_map s' = index_map s5
              else heap s' = butlast ((heap s)[idx := heap s ! (length (heap s) - 1)]) \<and>
                   index_map s' = (index_map s)(item := None)))"
    by blast
  show ?thesis
  proof (cases "heap s' = butlast (heap s)")
    case True
    with ho show ?thesis by (simp add: heap_order_butlast)
  next
    case False
    with cases have idx: "idx < length (heap s)" by blast
    show ?thesis
    proof (cases "idx < length (heap s) - 1")
      case True
      with cases False obtain u s4 u' s5 where
        up: "siftup c idx (index_erase item
                (s\<lparr>heap := butlast ((heap s)[idx := heap s ! (length (heap s) - 1)])\<rparr>))
             = (Inr u, s4)"
        and down: "siftdown c 0 idx s4 = (Inr u', s5)" and h: "heap s' = heap s5"
        by auto
      have "heap_order c (heap s5)"
        by (rule remove_at_heap_order [OF swo ho True _ up down]) simp
      with h show ?thesis by simp
    next
      case notless: False
      with idx have "idx = length (heap s) - 1" by simp
      then have "(heap s)[idx := heap s ! (length (heap s) - 1)] = heap s" by simp
      with cases False notless have "heap s' = butlast (heap s)" by auto
      with False show ?thesis by simp
    qed
  qed
qed

lemma set_size_loop_heap_order:
  assumes swo: "strict_weak_order c"
  shows "heap_order c (heap s) \<Longrightarrow> set_size_loop c s = (Inr r, s') \<Longrightarrow> heap_order c (heap s')"
proof (induction "length (heap s)" arbitrary: s rule: less_induct)
  case less
  show ?case
  proof (cases "length (heap s) > size' s")
    case False
    with less.prems show ?thesis by (simp add: set_size_loop.simps [of c s])
  next
    case True
    obtain r1 s1 where p: "pop c s = (r1, s1)" by (cases "pop c s")
    with True less.prems(2) obtain x where r1: "r1 = Inr x"
      and rec: "set_size_loop c s1 = (Inr r, s')"
      by (cases r1) (auto simp: set_size_loop.simps [of c s])
    from pop_length [OF p [unfolded r1]] pop_heap_order [OF swo less.prems(1) p [unfolded r1]]
    show ?thesis using less.hyps [OF _ _ rec] by simp
  qed
qed

lemma get_max_fields:
  "get_max c s = (r, s') \<Longrightarrow> heap s' = heap s \<and> index_map s' = index_map s \<and> size' s' = size' s"
  by (auto simp: get_max_def split: sum.splits if_splits)

lemma returned_Some: "returned p = Some s' \<longleftrightarrow> (\<exists>r. p = (Inr r, s'))"
  by (cases p; cases "fst p") auto

lemma apply_op_heap_order:
  assumes swo: "strict_weak_order c" and ho: "heap_order c (heap s)"
    and run: "apply_op c x s = Some s'"
  shows "heap_order c (heap s')"
proof (cases x)
  case (Push item)
  with run show ?thesis using push_heap_order [OF swo ho] by (auto simp: returned_Some)
next
  case (PushPop item)
  with run show ?thesis using pushpop_heap_order [OF swo ho] by (auto simp: returned_Some)
next
  case Pop
  with run show ?thesis using pop_heap_order [OF swo ho] by (auto simp: returned_Some)
next
  case (Replace item)
  with run show ?thesis using replace_heap_order [OF swo ho] by (auto simp: returned_Some)
next
  case (Remove item)
  with run show ?thesis using remove_heap_order [OF swo ho] by (auto simp: returned_Some)
next
  case (SetSize k)
  with run obtain r where "set_size_loop c (s\<lparr>size' := k\<rparr>) = (Inr r, s')"
    by (auto simp: returned_Some set_size_def)
  from set_size_loop_heap_order [OF swo _ this] ho show ?thesis by simp
next
  case GetMax
  with run ho show ?thesis by (auto simp: returned_Some dest: get_max_fields)
qed

lemma run_ops_heap_order:
  assumes swo: "strict_weak_order c"
  shows "heap_order c (heap s) \<Longrightarrow> run_ops c xs s = Some s' \<Longrightarrow> heap_order c (heap s')"
proof (induction xs arbitrary: s)
  case Nil
  then show ?case by simp
next
  case (Cons x xs)
  from Cons.prems(2) obtain s1 where a: "apply_op c x s = Some s1" and r: "run_ops c xs s1 = Some s'"
    by (auto split: option.splits)
  from Cons.IH [OF apply_op_heap_order [OF swo Cons.prems(1) a] r] show ?case .
qed

text \<open>
  C2 (heap-order invariant).  Under a strict weak order that never fails, after
  every run of public operations that all return (\<^verbatim>\<open>push\<close>, \<^verbatim>\<open>pushpop\<close>, \<^verbatim>\<open>pop\<close>,
  \<^verbatim>\<open>replace\<close>, \<^verbatim>\<open>remove\<close>, \<^verbatim>\<open>set_size\<close>, and \<^verbatim>\<open>get_max\<close>) from the empty heap,
  no element at a position \<open>i > 0\<close> is less than the element at \<open>(i - 1) div 2\<close>.
  Every prefix of a run is a run, so this holds after each operation.
\<close>

theorem heap_order_invariant:
  assumes "strict_weak_order comp'"
    and "run_ops comp' ops (EHeapQ_new sz l0 m0) = Some s"
  shows "heap_order comp' (heap s)"
proof -
  have "heap_order comp' (heap (EHeapQ_new sz l0 m0))"
    by (simp add: EHeapQ_new_def heap_order_def)
  from run_ops_heap_order [OF assms(1) this assms(2)] show ?thesis .
qed

theorem heap_order_invariant_witness:
  "strict_weak_order nat_less \<and>
   (\<exists>s. run_ops nat_less [Push 5, Push 3, Push 8, Push 1, Remove 3, PushPop 9, Replace 2,
                           SetSize 2, Pop] (EHeapQ_new 10 0 0) = Some s \<and>
        heap_order nat_less (heap s))"
proof -
  have "run_ops nat_less [Push 5, Push 3, Push 8, Push 1, Remove 3, PushPop 9, Replace 2,
                           SetSize 2, Pop] (EHeapQ_new 10 0 0) \<noteq> None"
    by code_simp
  then obtain s where s: "run_ops nat_less [Push 5, Push 3, Push 8, Push 1, Remove 3, PushPop 9,
                           Replace 2, SetSize 2, Pop] (EHeapQ_new 10 0 0) = Some s"
    by blast
  from heap_order_invariant [OF nat_less_swo s] nat_less_swo s show ?thesis by blast
qed

section \<open>A consistent index: the sift functions return and keep it\<close>

lemma index_wf_nth: "index_wf s \<Longrightarrow> i < length (heap s) \<Longrightarrow> index_map s (heap s ! i) = Some i"
  by (simp add: index_wf_def)

lemma index_wf_Some: "index_wf s \<Longrightarrow> index_map s x = Some i \<Longrightarrow> i < length (heap s) \<and> heap s ! i = x"
  by (simp add: index_wf_def)

lemma index_wf_distinct: "index_wf s \<Longrightarrow> distinct (heap s)"
proof -
  assume wf: "index_wf s"
  have "i = j" if "i < length (heap s)" "j < length (heap s)" "heap s ! i = heap s ! j" for i j
  proof -
    have "Some i = index_map s (heap s ! i)" using index_wf_nth [OF wf that(1)] by simp
    also have "\<dots> = index_map s (heap s ! j)" by (simp only: that(3))
    also have "\<dots> = Some j" using index_wf_nth [OF wf that(2)] .
    finally show ?thesis by simp
  qed
  then show ?thesis unfolding distinct_conv_nth by blast
qed

lemma index_wf_dom: "index_wf s \<Longrightarrow> dom (index_map s) = set (heap s)"
proof -
  assume wf: "index_wf s"
  show ?thesis
  proof (intro set_eqI iffI)
    fix x assume "x \<in> dom (index_map s)"
    then obtain i where "index_map s x = Some i" by blast
    from index_wf_Some [OF wf this] show "x \<in> set (heap s)" by auto
  next
    fix x assume "x \<in> set (heap s)"
    then obtain i where "i < length (heap s)" "heap s ! i = x" by (auto simp: in_set_conv_nth)
    with index_wf_nth [OF wf, of i] show "x \<in> dom (index_map s)" by auto
  qed
qed

lemma index_wfI:
  assumes "distinct (heap s)" and "dom (index_map s) = set (heap s)"
    and "\<And>i. i < length (heap s) \<Longrightarrow> index_map s (heap s ! i) = Some i"
  shows "index_wf s"
  unfolding index_wf_def
proof (intro allI iffI)
  fix x i assume "index_map s x = Some i"
  then have "x \<in> set (heap s)" using assms(2) by blast
  then obtain j where j: "j < length (heap s)" "heap s ! j = x" by (auto simp: in_set_conv_nth)
  with assms(3) [of j] \<open>index_map s x = Some i\<close> show "i < length (heap s) \<and> heap s ! i = x"
    by simp
next
  fix x i assume "i < length (heap s) \<and> heap s ! i = x"
  with assms(3) [of i] show "index_map s x = Some i" by auto
qed

lemma index_consistent_wf: "index_consistent s \<longleftrightarrow> index_wf s"
proof
  assume ic: "index_consistent s"
  then have pw: "\<And>i. i < length (heap s) \<Longrightarrow> index_map s (heap s ! i) = Some i"
    and fin: "finite (dom (index_map s))" and card: "card (dom (index_map s)) = length (heap s)"
    by (auto simp: index_consistent_def)
  have "i = j" if "i < length (heap s)" "j < length (heap s)" "heap s ! i = heap s ! j" for i j
  proof -
    have "Some i = index_map s (heap s ! i)" using pw [OF that(1)] by simp
    also have "\<dots> = index_map s (heap s ! j)" by (simp only: that(3))
    also have "\<dots> = Some j" using pw [OF that(2)] .
    finally show ?thesis by simp
  qed
  then have d: "distinct (heap s)" unfolding distinct_conv_nth by blast
  have sub: "set (heap s) \<subseteq> dom (index_map s)"
    using pw by (auto simp: in_set_conv_nth)
  have "card (set (heap s)) = card (dom (index_map s))"
    using d card by (simp add: distinct_card)
  with sub fin have "set (heap s) = dom (index_map s)" by (simp add: card_subset_eq)
  with d pw show "index_wf s" by (intro index_wfI) auto
next
  assume wf: "index_wf s"
  show "index_consistent s"
    unfolding index_consistent_def
    using index_wf_nth [OF wf] index_wf_dom [OF wf] index_wf_distinct [OF wf]
    by (auto simp: distinct_card)
qed

lemma index_wf_swap:
  assumes wf: "index_wf s" and i: "i < length (heap s)" and j: "j < length (heap s)"
  shows "index_wf (swap_at i j s)"
proof (rule index_wfI)
  note d = index_wf_distinct [OF wf]
  show "distinct (heap (swap_at i j s))"
    using d i j by (simp add: distinct_swap)
  show "dom (index_map (swap_at i j s)) = set (heap (swap_at i j s))"
    using index_wf_dom [OF wf] i j by (auto simp: set_swap)
  fix k assume "k < length (heap (swap_at i j s))"
  then have k: "k < length (heap s)" by simp
  have neq: "heap s ! a \<noteq> heap s ! b" if "a < length (heap s)" "b < length (heap s)" "a \<noteq> b" for a b
    using d that by (simp add: nth_eq_iff_index_eq)
  show "index_map (swap_at i j s) (heap (swap_at i j s) ! k) = Some k"
  proof (cases "k = j")
    case True
    with i j show ?thesis by simp
  next
    case kj: False
    show ?thesis
    proof (cases "k = i")
      case True
      with kj i j neq [of j i] show ?thesis by simp
    next
      case False
      with kj i j k neq [of k i] neq [of k j] index_wf_nth [OF wf k] show ?thesis by simp
    qed
  qed
qed

lemma index_wf_cong:
  "heap t = heap s \<Longrightarrow> index_map t = index_map s \<Longrightarrow> index_wf t = index_wf s"
  by (simp add: index_wf_def)

lemma child_choice_total:
  assumes "strict_weak_order c"
  shows "\<exists>k. child_choice c e p xs = Inr k"
proof (cases "2 * p + 1 + 1 < e")
  case False
  then show ?thesis by (simp add: child_choice_def)
next
  case True
  from swo_total [OF assms] obtain b where "c (xs ! (2 * p + 1)) (xs ! (2 * p + 1 + 1)) = Some b"
    by blast
  with True show ?thesis by (simp add: child_choice_def)
qed

lemma siftdown_loop_total:
  assumes swo: "strict_weak_order c"
  shows "index_wf s \<Longrightarrow> pos < length (heap s) \<Longrightarrow>
         \<exists>s'. siftdown_loop c sp pos s = (Inr (), s') \<and> index_wf s'"
proof (induction pos arbitrary: s rule: less_induct)
  case (less pos)
  show ?case
  proof (cases "sp < pos")
    case False
    with less.prems show ?thesis by (simp add: siftdown_loop_stop)
  next
    case True
    then have pp: "parent_pos pos < pos" by (simp add: parent_pos_less)
    from swo_total [OF swo] obtain b where b: "c (heap s ! pos) (heap s ! parent_pos pos) = Some b"
      by blast
    show ?thesis
    proof (cases b)
      case False
      with b less.prems show ?thesis by (simp add: siftdown_loop_break)
    next
      case bt: True
      have i1: "index_map s (heap s ! pos) \<noteq> None"
        using index_wf_nth [OF less.prems(1) less.prems(2)] by simp
      have i2: "index_map s (heap s ! parent_pos pos) \<noteq> None"
        using index_wf_nth [OF less.prems(1), of "parent_pos pos"] pp less.prems(2) by simp
      have eq: "siftdown_loop c sp pos s =
                siftdown_loop c sp (parent_pos pos) (swap_at (parent_pos pos) pos s)"
        using siftdown_loop_step [OF True _ i1 i2] b bt by simp
      have wf': "index_wf (swap_at (parent_pos pos) pos s)"
        using index_wf_swap [OF less.prems(1)] pp less.prems(2) by simp
      have "parent_pos pos < length (heap (swap_at (parent_pos pos) pos s))"
        using pp less.prems(2) by simp
      from less.IH [OF pp wf' this] eq show ?thesis by simp
    qed
  qed
qed

lemma siftup_loop_total:
  assumes swo: "strict_weak_order c"
  shows "index_wf s \<Longrightarrow> pos < length (heap s) \<Longrightarrow> length (heap s) = n \<Longrightarrow>
         \<exists>q s'. siftup_loop c n (n div 2) pos s = (Inr q, s') \<and> index_wf s' \<and>
                 q < length (heap s')"
proof (induction "n div 2 - pos" arbitrary: pos s rule: less_induct)
  case less
  show ?case
  proof (cases "pos < n div 2")
    case False
    with less.prems show ?thesis by (simp add: siftup_loop_stop)
  next
    case True
    from child_choice_total [OF swo] obtain k where k: "child_choice c n pos (heap s) = Inr k"
      by blast
    have kn: "k < n" using child_choice_less [OF k True] .
    have kp: "pos < k" using child_choice_range [OF k] by auto
    have i1: "index_map s (heap s ! pos) \<noteq> None"
      using index_wf_nth [OF less.prems(1) less.prems(2)] by simp
    have i2: "index_map s (heap s ! k) \<noteq> None"
      using index_wf_nth [OF less.prems(1), of k] kn less.prems(3) by simp
    have eq: "siftup_loop c n (n div 2) pos s = siftup_loop c n (n div 2) k (swap_at k pos s)"
      using siftup_loop_step [OF True k i1 i2] .
    have wf': "index_wf (swap_at k pos s)"
      using index_wf_swap [OF less.prems(1)] kn less.prems(2,3) by simp
    have dec: "n div 2 - k < n div 2 - pos" using kp True by simp
    have "k < length (heap (swap_at k pos s))" "length (heap (swap_at k pos s)) = n"
      using kn less.prems(3) by simp_all
    from less.hyps [OF dec wf' this] eq show ?thesis by simp
  qed
qed

lemma siftdown_total:
  assumes "strict_weak_order c" and "index_wf s" and "pos < length (heap s)"
  shows "\<exists>s'. siftdown c sp pos s = (Inr (), s') \<and> index_wf s'"
proof -
  from assms(3) have "heap s \<noteq> []" by auto
  with siftdown_loop_total [OF assms, of sp] assms(3) show ?thesis
    by (simp add: siftdown_def)
qed

lemma siftup_total:
  assumes swo: "strict_weak_order c" and wf: "index_wf s"
    and pos: "pos < length (heap s) \<or> heap s = []"
  shows "\<exists>s'. siftup c pos s = (Inr (), s') \<and> index_wf s'"
proof (cases "heap s = []")
  case True
  then have "siftup_loop c (length (heap s)) (length (heap s) div 2) pos s = (Inr pos, s)"
    by (simp add: siftup_loop_stop)
  with True wf show ?thesis by (simp add: siftup_def siftdown_def)
next
  case False
  with pos have p: "pos < length (heap s)" by simp
  from siftup_loop_total [OF swo wf p refl] obtain q s1 where
    l: "siftup_loop c (length (heap s)) (length (heap s) div 2) pos s = (Inr q, s1)"
    and wf1: "index_wf s1" and q: "q < length (heap s1)" by blast
  from siftdown_total [OF swo wf1 q, of pos] obtain s' where
    "siftdown c pos q s1 = (Inr (), s')" "index_wf s'" by blast
  with l show ?thesis by (simp add: siftup_def Let_def)
qed

section \<open>\<^verbatim>\<open>pop\<close> and \<^verbatim>\<open>set_size\<close> on a consistent heap\<close>

text \<open>The state of \<^verbatim>\<open>pop\<close> just before its \<^verbatim>\<open>siftup(0)\<close>.\<close>

lemma pop_before_sift:
  assumes wf: "index_wf s" and ne: "heap s \<noteq> []"
  shows "\<exists>s4. (if length (heap s) > 1
               then (\<exists>s2. index_at_put (last (heap s)) 0 (s\<lparr>heap := (heap s)[0 := last (heap s)]\<rparr>)
                            = (Inr (), s2) \<and>
                          s4 = index_erase (heap s ! 0) (s2\<lparr>heap := butlast (heap s2)\<rparr>))
               else s4 = index_erase (heap s ! 0) (s\<lparr>heap := butlast (heap s)\<rparr>)) \<and>
              index_wf s4 \<and> mset (heap s4) = mset (heap s) - {#heap s ! 0#} \<and>
              size' s4 = size' s"
proof (cases "length (heap s) > 1")
  case False
  with ne obtain x where xs: "heap s = [x]" by (cases "heap s") auto
  define s4 where "s4 = index_erase (heap s ! 0) (s\<lparr>heap := butlast (heap s)\<rparr>)"
  have "dom (index_map s) = {x}" using index_wf_dom [OF wf] xs by simp
  then have "dom (index_map s4) = {}" by (auto simp: s4_def xs)
  then have "index_wf s4" by (intro index_wfI) (simp_all add: s4_def xs)
  moreover have "mset (heap s4) = mset (heap s) - {#heap s ! 0#}" by (simp add: s4_def xs)
  moreover have "size' s4 = size' s" by (simp add: s4_def)
  ultimately show ?thesis using False unfolding s4_def by auto
next
  case True
  then obtain x ys where xs0: "heap s = x # ys" "ys \<noteq> []" by (cases "heap s") auto
  define m where "m = butlast ys"
  define z where "z = last ys"
  have xs: "heap s = x # m @ [z]" using xs0 by (simp add: m_def z_def)
  have d: "distinct (x # m @ [z])" using index_wf_distinct [OF wf] xs by simp
  have dm: "dom (index_map s) = insert x (insert z (set m))" using index_wf_dom [OF wf] xs by auto
  have lz: "last (heap s) = z" by (simp add: xs)
  have "index_map s z \<noteq> None" using dm by blast
  then obtain i where iz: "index_map s z = Some i" by blast
  define s2 where "s2 = s\<lparr>heap := (heap s)[0 := z], index_map := (index_map s)(z \<mapsto> 0)\<rparr>"
  have put: "index_at_put (last (heap s)) 0 (s\<lparr>heap := (heap s)[0 := last (heap s)]\<rparr>) = (Inr (), s2)"
    using iz by (simp add: index_at_put_def lz s2_def)
  define s4 where "s4 = index_erase (heap s ! 0) (s2\<lparr>heap := butlast (heap s2)\<rparr>)"
  have h4: "heap s4 = z # m" by (simp add: s4_def s2_def xs)
  have i4: "index_map s4 = ((index_map s)(z \<mapsto> 0))(x := None)" by (simp add: s4_def s2_def xs)
  have "index_wf s4"
  proof (rule index_wfI)
    show "distinct (heap s4)" using d by (simp add: h4)
    show "dom (index_map s4) = set (heap s4)" using d dm by (auto simp: h4 i4)
    fix k assume "k < length (heap s4)"
    then have k: "k < Suc (length m)" by (simp add: h4)
    show "index_map s4 (heap s4 ! k) = Some k"
    proof (cases k)
      case 0
      with d show ?thesis by (auto simp: h4 i4)
    next
      case (Suc j)
      with k have j: "j < length m" by simp
      then have mj: "m ! j \<in> set m" by simp
      have "heap s ! Suc j = m ! j" using j by (simp add: xs nth_append)
      moreover have "Suc j < length (heap s)" using j by (simp add: xs)
      ultimately have "index_map s (m ! j) = Some (Suc j)"
        using index_wf_nth [OF wf, of "Suc j"] by simp
      moreover have "m ! j \<noteq> z" "m ! j \<noteq> x" using d mj by auto
      ultimately show ?thesis using Suc by (simp add: h4 i4)
    qed
  qed
  moreover have "mset (heap s4) = mset (heap s) - {#heap s ! 0#}" by (simp add: h4 xs)
  moreover have "size' s4 = size' s" by (simp add: s4_def s2_def)
  ultimately show ?thesis using True put unfolding s4_def by auto
qed

lemma pop_total:
  assumes swo: "strict_weak_order c" and wf: "index_wf s" and ne: "heap s \<noteq> []"
  shows "\<exists>s'. pop c s = (Inr (heap s ! 0), s') \<and> index_wf s' \<and>
              mset (heap s') = mset (heap s) - {#heap s ! 0#} \<and> size' s' = size' s"
proof -
  from pop_before_sift [OF wf ne] obtain s4 where
    pre: "if length (heap s) > 1
          then (\<exists>s2. index_at_put (last (heap s)) 0 (s\<lparr>heap := (heap s)[0 := last (heap s)]\<rparr>)
                            = (Inr (), s2) \<and>
                     s4 = index_erase (heap s ! 0) (s2\<lparr>heap := butlast (heap s2)\<rparr>))
          else s4 = index_erase (heap s ! 0) (s\<lparr>heap := butlast (heap s)\<rparr>)"
    and wf4: "index_wf s4" and m4: "mset (heap s4) = mset (heap s) - {#heap s ! 0#}"
    and sz4: "size' s4 = size' s" by blast
  have p0: "0 < length (heap s4) \<or> heap s4 = []" by auto
  from siftup_total [OF swo wf4 p0] obtain s5 where
    su: "siftup c 0 s4 = (Inr (), s5)" and wf5: "index_wf s5" by blast
  from siftup_same_items [OF su p0] have same: "same_items s4 s5" .
  define s' where "s' = maybe_del_max_item (heap s ! 0) (maybe_del_last_item (heap s ! 0) s5)"
  have "pop c s = (Inr (heap s ! 0), s')"
  proof (cases "length (heap s) > 1")
    case True
    with pre obtain s2 where
      put: "index_at_put (last (heap s)) 0 (s\<lparr>heap := (heap s)[0 := last (heap s)]\<rparr>) = (Inr (), s2)"
      and s4: "s4 = index_erase (heap s ! 0) (s2\<lparr>heap := butlast (heap s2)\<rparr>)" by auto
    from True ne put su [unfolded s4] show ?thesis
      by (simp add: pop_def throw_on_empty_def Let_def s'_def)
  next
    case False
    with pre have s4: "s4 = index_erase (heap s ! 0) (s\<lparr>heap := butlast (heap s)\<rparr>)" by simp
    from False ne su [unfolded s4] show ?thesis
      by (simp add: pop_def throw_on_empty_def Let_def s'_def)
  qed
  moreover have "index_wf s'"
    using wf5 index_wf_cong [of s' s5] by (simp add: s'_def)
  moreover have "mset (heap s') = mset (heap s) - {#heap s ! 0#}"
    using same m4 by (simp add: s'_def same_items_def)
  moreover have "size' s' = size' s"
    using same sz4 by (simp add: s'_def same_items_def)
  ultimately show ?thesis by blast
qed

lemma mset_diff_after_pop:
  fixes M K :: "'a multiset"
  assumes "m \<in># M" and "K \<subseteq># M - {#m#}"
  shows "M - K = (M - {#m#} - K) + {#m#}"
proof -
  define M1 where "M1 = M - {#m#}"
  have M: "M = M1 + {#m#}" using assms(1) by (simp add: M1_def)
  have "K \<subseteq># M1" using assms(2) by (simp add: M1_def)
  then have "{#m#} + M1 - K = {#m#} + (M1 - K)"
    by (rule multiset_diff_union_assoc)
  then have "(M1 + {#m#}) - K = (M1 - K) + {#m#}"
    by (simp add: ac_simps)
  then show ?thesis unfolding M [symmetric] by (simp add: M1_def)
qed

lemma set_size_loop_largest:
  assumes swo: "strict_weak_order c"
  shows "heap_order c (heap s) \<Longrightarrow> index_wf s \<Longrightarrow>
         \<exists>s'. set_size_loop c s = (Inr (), s') \<and>
              length (heap s') = min (length (heap s)) (size' s) \<and> size' s' = size' s \<and>
              heap_order c (heap s') \<and> index_wf s' \<and>
              mset (heap s') \<subseteq># mset (heap s) \<and>
              (\<forall>x y. x \<in># mset (heap s) - mset (heap s') \<and> y \<in> set (heap s') \<longrightarrow> \<not> lt c y x)"
proof (induction "length (heap s)" arbitrary: s rule: less_induct)
  case less
  show ?case
  proof (cases "length (heap s) > size' s")
    case False
    then have "set_size_loop c s = (Inr (), s)" by (simp add: set_size_loop.simps [of c s])
    with False less.prems show ?thesis by simp
  next
    case True
    then have ne: "heap s \<noteq> []" by auto
    define m where "m = heap s ! 0"
    from pop_total [OF swo less.prems(2) ne] obtain s1 where
      p: "pop c s = (Inr m, s1)" and wf1: "index_wf s1"
      and m1: "mset (heap s1) = mset (heap s) - {#m#}" and sz1: "size' s1 = size' s"
      unfolding m_def by blast
    have ho1: "heap_order c (heap s1)" using pop_heap_order [OF swo less.prems(1) p] .
    have min: "m \<in># mset (heap s)" using ne by (simp add: m_def)
    have "size (mset (heap s1)) = size (mset (heap s)) - 1"
      using m1 min by (simp add: size_Diff_singleton)
    then have l1: "length (heap s1) = length (heap s) - 1" by simp
    then have dec: "length (heap s1) < length (heap s)" using ne by simp
    from less.hyps [OF dec ho1 wf1] obtain s' where
      r: "set_size_loop c s1 = (Inr (), s')"
      and l': "length (heap s') = min (length (heap s1)) (size' s1)"
      and sz': "size' s' = size' s1" and ho': "heap_order c (heap s')" and wf': "index_wf s'"
      and sub: "mset (heap s') \<subseteq># mset (heap s1)"
      and big: "\<And>x y. x \<in># mset (heap s1) - mset (heap s') \<Longrightarrow> y \<in> set (heap s') \<Longrightarrow> \<not> lt c y x"
      by blast
    have run: "set_size_loop c s = (Inr (), s')"
      using True p r by (simp add: set_size_loop.simps [of c s])
    have len: "length (heap s') = min (length (heap s)) (size' s)"
      using l' l1 sz1 True by simp
    have "mset (heap s1) \<subseteq># mset (heap s)" by (simp add: m1)
    with sub have sub': "mset (heap s') \<subseteq># mset (heap s)"
      by (rule subset_mset.order_trans)
    have big': "\<not> lt c y x" if x: "x \<in># mset (heap s) - mset (heap s')" and y: "y \<in> set (heap s')"
      for x y
    proof -
      have "mset (heap s) - mset (heap s') = (mset (heap s1) - mset (heap s')) + {#m#}"
        using mset_diff_after_pop [OF min sub [unfolded m1]] m1 by simp
      with x consider "x \<in># mset (heap s1) - mset (heap s')" | "x = m" by auto
      then show ?thesis
      proof cases
        case 1
        then show ?thesis using big y by blast
      next
        case 2
        from y have "y \<in># mset (heap s')" by simp
        with sub' have "y \<in># mset (heap s)" by (rule mset_subset_eqD)
        then have "y \<in> set (heap s)" by simp
        then obtain i where "i < length (heap s)" "heap s ! i = y" by (auto simp: in_set_conv_nth)
        with heap_order_root_min [OF swo less.prems(1), of i] 2 show ?thesis by (simp add: m_def)
      qed
    qed
    from run len sz' sz1 ho' wf' sub' big' show ?thesis by auto
  qed
qed

text \<open>
  Shrinking a consistent heap.  On a state that holds \<open>n\<close> elements in heap order
  with a consistent index (so the keys are distinct), under a strict weak order
  that never fails, \<^verbatim>\<open>set_size(k)\<close> with \<open>k < n\<close> returns; the heap then holds \<open>k\<close>
  of the original elements, \<open>k\<close> is the capacity, and no element that was kept is less
  than an element that was dropped.  The loop of \<^verbatim>\<open>set_size\<close> and \<^verbatim>\<open>pop\<close> are
  sound on their own; they rely on the index that the other operations leave.
\<close>

lemma set_size_largest_on_consistent:
  assumes "strict_weak_order comp'" and "heap_order comp' (heap s)"
    and "index_consistent s" and "k < length (heap s)"
  shows "\<exists>s'. set_size comp' k s = (Inr (), s') \<and>
              length (heap s') = k \<and> length (heap s') \<le> size' s' \<and>
              mset (heap s') \<subseteq># mset (heap s) \<and>
              (\<forall>x\<in>#mset (heap s) - mset (heap s'). \<forall>y\<in>set (heap s'). \<not> lt comp' y x)"
proof -
  define t where "t = s\<lparr>size' := k\<rparr>"
  have "heap_order comp' (heap t)" using assms(2) by (simp add: t_def)
  moreover have "index_wf t"
    using assms(3) index_wf_cong [of t s] by (simp add: index_consistent_wf t_def)
  ultimately obtain s' where
    r: "set_size_loop comp' t = (Inr (), s')"
    and l: "length (heap s') = min (length (heap t)) (size' t)" and sz: "size' s' = size' t"
    and sub: "mset (heap s') \<subseteq># mset (heap t)"
    and big: "\<forall>x y. x \<in># mset (heap t) - mset (heap s') \<and> y \<in> set (heap s') \<longrightarrow> \<not> lt comp' y x"
    using set_size_loop_largest [OF assms(1), of t] by blast
  have "set_size comp' k s = (Inr (), s')" using r by (simp add: set_size_def t_def)
  moreover have "length (heap s') = k" using l assms(4) by (simp add: t_def)
  moreover have "length (heap s') \<le> size' s'" using l sz assms(4) by (simp add: t_def)
  moreover have "mset (heap s') \<subseteq># mset (heap s)" using sub by (simp add: t_def)
  moreover have "\<forall>x\<in>#mset (heap s) - mset (heap s'). \<forall>y\<in>set (heap s'). \<not> lt comp' y x"
    using big by (simp add: t_def)
  ultimately show ?thesis by blast
qed

lemma set_size_largest_on_consistent_example:
  "\<exists>s'. set_size nat_less 2 heap_1_3_2 = (Inr (), s') \<and>
        length (heap s') = 2 \<and> length (heap s') \<le> size' s' \<and>
        mset (heap s') \<subseteq># mset (heap heap_1_3_2) \<and>
        (\<forall>x\<in>#mset (heap heap_1_3_2) - mset (heap s'). \<forall>y\<in>set (heap s'). \<not> lt nat_less y x)"
proof -
  have h2: "heap_order nat_less (heap heap_1_3_2)" by code_simp
  have h3: "index_consistent heap_1_3_2"
    unfolding index_consistent_wf
    by (rule index_wfI) (auto simp: heap_1_3_2_def less_Suc_eq numeral_3_eq_3)
  have h4: "2 < length (heap heap_1_3_2)" by (simp add: heap_1_3_2_def)
  from set_size_largest_on_consistent [OF nat_less_swo h2 h3 h4] show ?thesis .
qed

subsection \<open>The concrete states are reached by runs\<close>

lemma heap_3_5_reached:
  "map_option (\<lambda>s. (heap s, size' s, last_item s, last_item_set s, max_item s, max_item_set s,
                       map (index_map s) [0, 1, 2, 3, 4, 5]))
     (run_ops nat_less [Push 3, Push 5] (EHeapQ_new 10 0 0))
   = Some (heap heap_3_5, size' heap_3_5, last_item heap_3_5, last_item_set heap_3_5,
           max_item heap_3_5, max_item_set heap_3_5, map (index_map heap_3_5) [0, 1, 2, 3, 4, 5])"
  by code_simp

lemma heap_1_3_2_reached:
  "map_option (\<lambda>s. (heap s, size' s, last_item s, last_item_set s, max_item s, max_item_set s,
                       map (index_map s) [0, 1, 2, 3, 4, 5]))
     (run_ops nat_less [Push 1, Push 3, Push 2, Push 4, Remove 4] (EHeapQ_new 10 0 0))
   = Some (heap heap_1_3_2, size' heap_1_3_2, last_item heap_1_3_2, last_item_set heap_1_3_2,
           max_item heap_1_3_2, max_item_set heap_1_3_2,
           map (index_map heap_1_3_2) [0, 1, 2, 3, 4, 5])"
  by code_simp

section \<open>Runs that leave the documented behaviour\<close>

text \<open>
  C1 (index consistency).  The claim: after every successful public operation
  each stored element is recorded in the index at its own position.  The run
  \<^verbatim>\<open>push(1); push(2); push(3); remove(2)\<close> returns each time and ends with the vector
  \<open>[1, 3]\<close>, where 3 is at position 1, while the index still records 3 at position 2:
  \<^verbatim>\<open>remove\<close> copies the last element into the vacated slot without recording its
  new position, and neither sift pass moves it.
\<close>

theorem remove_leaves_stale_index:
  "run_ops nat_less [Push 1, Push 2, Push 3, Remove 2] (EHeapQ_new 10 0 0) \<noteq> None \<and>
   heap (the (run_ops nat_less [Push 1, Push 2, Push 3, Remove 2] (EHeapQ_new 10 0 0))) = [1, 3] \<and>
   index_map (the (run_ops nat_less [Push 1, Push 2, Push 3, Remove 2] (EHeapQ_new 10 0 0))) 3
     = Some 2"
  by code_simp

text \<open>That state is not index-consistent.\<close>

lemma stale_index_not_consistent:
  "\<not> index_consistent
       (the (run_ops nat_less [Push 1, Push 2, Push 3, Remove 2] (EHeapQ_new 10 0 0)))"
proof
  let ?s = "the (run_ops nat_less [Push 1, Push 2, Push 3, Remove 2] (EHeapQ_new 10 0 0))"
  assume "index_consistent ?s"
  then have wf: "index_wf ?s" by (simp add: index_consistent_wf)
  have "heap ?s = [1, 3]" "index_map ?s 3 = Some 2" by code_simp+
  with index_wf_nth [OF wf, of 1] show False by simp
qed

text \<open>
  C3 (strong exception safety).  The claim: when the comparator throws during a
  sift, the operation leaves vector and index as they were before the call.  On
  the heap \<open>[1, 2, 3]\<close>, \<^verbatim>\<open>push(0)\<close> with a comparator that throws on the pair
  \<open>(0, 1)\<close> first exchanges 0 with its parent 2, then fails at the root; the handler
  drops the last vector element, which by now is 2, and erases 0 from the index.
  The call ends with the exception, the vector \<open>[1, 0, 3]\<close>, no index entry for 0
  and a stale entry for 2.
\<close>

theorem push_rollback_after_swap:
  "heap (the (run_ops throwing_less [Push 1, Push 2, Push 3] (EHeapQ_new 10 0 0))) = [1, 2, 3] \<and>
   fst (push throwing_less 0
          (the (run_ops throwing_less [Push 1, Push 2, Push 3] (EHeapQ_new 10 0 0))))
     = Inl CompareError \<and>
   heap (snd (push throwing_less 0
          (the (run_ops throwing_less [Push 1, Push 2, Push 3] (EHeapQ_new 10 0 0)))))
     = [1, 0, 3] \<and>
   index_map (snd (push throwing_less 0
          (the (run_ops throwing_less [Push 1, Push 2, Push 3] (EHeapQ_new 10 0 0))))) 0
     = None \<and>
   index_map (snd (push throwing_less 0
          (the (run_ops throwing_less [Push 1, Push 2, Push 3] (EHeapQ_new 10 0 0))))) 2
     = Some 3"
  by code_simp

text \<open>
  C5 (max-scan correctness).  The claim: on every state reached by successful
  public operations \<^verbatim>\<open>get_max\<close> returns what a full linear scan returns.  After
  \<^verbatim>\<open>push(3); push(5); replace(10)\<close> the vector is \<open>[5, 10]\<close> and the cached maximum
  is still 5, because \<^verbatim>\<open>replace\<close> adjusts the cache with the evicted element
  instead of the new one; \<^verbatim>\<open>get_max\<close> returns 5, the full scan 10.
\<close>

theorem get_max_stale_after_replace:
  "heap (the (run_ops nat_less [Push 3, Push 5, Replace 10] (EHeapQ_new 10 0 0))) = [5, 10] \<and>
   fst (get_max nat_less
          (the (run_ops nat_less [Push 3, Push 5, Replace 10] (EHeapQ_new 10 0 0)))) = Inr 5 \<and>
   linear_scan_max nat_less
     (heap (the (run_ops nat_less [Push 3, Push 5, Replace 10] (EHeapQ_new 10 0 0)))) = Inr 10"
  by code_simp

text \<open>
  C7 (shrink retains largest).  The claim: on every heap state that holds \<open>n\<close>
  distinct-keyed elements, \<^verbatim>\<open>set_size(k)\<close> with \<open>k < n\<close> returns and leaves exactly
  the \<open>k\<close> largest elements, with length \<open>k\<close> within the capacity.  The run
  \<^verbatim>\<open>push(1); push(2); push(3); remove(2); push(4); remove(3)\<close> returns each time
  and ends with the vector \<open>[1, 3]\<close>, in heap order, while the index holds entries
  for 1 and 4 only: the first \<^verbatim>\<open>remove\<close> left 3 recorded at position 2, where
  \<^verbatim>\<open>push(4)\<close> then put 4, so that \<^verbatim>\<open>remove(3)\<close> dropped the slot of 4 and erased the
  entry of 3.  On that state \<^verbatim>\<open>set_size(1)\<close> does not return: \<^verbatim>\<open>pop\<close> copies 3 to
  the root and \<^verbatim>\<open>index_map->at(3)\<close> throws.  The call ends with the vector
  \<open>[3, 3]\<close> of length 2 and capacity 1.
\<close>

theorem set_size_throws_on_stale_index:
  "run_ops nat_less [Push 1, Push 2, Push 3, Remove 2, Push 4, Remove 3] (EHeapQ_new 10 0 0)
     \<noteq> None \<and>
   heap (the (run_ops nat_less [Push 1, Push 2, Push 3, Remove 2, Push 4, Remove 3]
                (EHeapQ_new 10 0 0))) = [1, 3] \<and>
   index_map (the (run_ops nat_less [Push 1, Push 2, Push 3, Remove 2, Push 4, Remove 3]
                (EHeapQ_new 10 0 0))) 3 = None \<and>
   index_map (the (run_ops nat_less [Push 1, Push 2, Push 3, Remove 2, Push 4, Remove 3]
                (EHeapQ_new 10 0 0))) 4 = Some 2 \<and>
   fst (set_size nat_less 1
          (the (run_ops nat_less [Push 1, Push 2, Push 3, Remove 2, Push 4, Remove 3]
                  (EHeapQ_new 10 0 0)))) = Inl OutOfRange \<and>
   heap (snd (set_size nat_less 1
          (the (run_ops nat_less [Push 1, Push 2, Push 3, Remove 2, Push 4, Remove 3]
                  (EHeapQ_new 10 0 0))))) = [3, 3] \<and>
   size' (snd (set_size nat_less 1
          (the (run_ops nat_less [Push 1, Push 2, Push 3, Remove 2, Push 4, Remove 3]
                  (EHeapQ_new 10 0 0))))) = 1"
  by code_simp

text \<open>
  C8 (\<^verbatim>\<open>replace\<close> and the last-inserted cache).  The claim: after
  \<^verbatim>\<open>replace(item)\<close> the last-inserted cache holds \<open>item\<close>.  On the heap \<open>[3, 5]\<close>,
  \<^verbatim>\<open>replace(4)\<close> returns 3 and leaves the vector \<open>[4, 5]\<close>, and the cache holds the
  evicted 3, which \<^verbatim>\<open>get_last\<close> then returns.
\<close>

theorem replace_caches_evicted_item:
  "fst (replace nat_less 4 heap_3_5) = Inr 3 \<and>
   heap (snd (replace nat_less 4 heap_3_5)) = [4, 5] \<and>
   last_item_set (snd (replace nat_less 4 heap_3_5)) \<and>
   last_item (snd (replace nat_less 4 heap_3_5)) = 3 \<and>
   fst (get_last (snd (replace nat_less 4 heap_3_5))) = Inr 3"
  by code_simp

text \<open>
  C9 (\<^verbatim>\<open>get_max\<close> caches its result).  The claim: after \<^verbatim>\<open>get_max\<close> has returned
  \<open>m\<close> the max cache is set and holds \<open>m\<close>.  On the heap \<open>[1, 3, 2]\<close> with no cached
  maximum, \<^verbatim>\<open>get_max\<close> returns 3 and stores 3 in \<^verbatim>\<open>max_item\<close>, but
  \<^verbatim>\<open>max_item_set\<close> stays false.
\<close>

theorem get_max_leaves_cache_unset:
  "\<not> max_item_set heap_1_3_2 \<and>
   fst (get_max nat_less heap_1_3_2) = Inr 3 \<and>
   max_item (snd (get_max nat_less heap_1_3_2)) = 3 \<and>
   \<not> max_item_set (snd (get_max nat_less heap_1_3_2))"
  by code_simp

end
